theory Spec2Isabelle
  imports Complex_Main
begin

section \<open>The background worker of \<^verbatim>\<open>app.py\<close>\<close>

text \<open>
  The development embeds the polling worker of \<^verbatim>\<open>app.py\<close>: the credential accessor
  \<^verbatim>\<open>_pick_random_api_key\<close>, the idempotency guard \<^verbatim>\<open>_lead_already_processed\<close>, the row
  processor \<^verbatim>\<open>_process_row\<close>, the per-row coroutine \<^verbatim>\<open>_run\<close> and the loop
  \<^verbatim>\<open>_worker_loop\<close>. Python names that begin with an underscore lose it here.

  The store, the transformation function \<^verbatim>\<open>stage3.process_leads\<close>, the random generator
  and the clock are outside the program. What they answer is read from an oracle; what the
  program asks of them is appended to a trace.
\<close>

subsection \<open>Data\<close>

text \<open>
  A row is a Python dictionary read with \<^verbatim>\<open>row.get(key)\<close>: a missing key and a null value
  both read as \<open>None\<close>.
\<close>

type_synonym row = "string \<rightharpoonup> string"

text \<open>The two exception classes the worker tells apart: \<^verbatim>\<open>except Exception\<close> catches the
  first and lets \<^verbatim>\<open>asyncio.CancelledError\<close>, a \<^verbatim>\<open>BaseException\<close>, through.\<close>

datatype exn = Exception | CancelledError

text \<open>The answer of a store call: it raises, or it returns a response whose \<^verbatim>\<open>data\<close> is a
  list or null.\<close>

datatype 'a response = Raises | Data "'a list option"

datatype phase = START | DONE | SKIP | ERROR

datatype detail = ApiKey "string option" | Reason string

record summary =
  total :: nat
  processed :: nat
  skipped :: nat
  errors :: nat
  duration :: rat

datatype event =
    Rpc string
  | SelectLlmResponse string
  | UpdateLeadDetails "string option"
  | SelectGeminiApi
  | ProcessLeads "(string \<times> string option) list" string "string option" "string option" "string option"
  | LogLine phase "string option" "string option" detail
  | Print summary
  | Sleep rat
  | SemAcquire
  | SemRelease

text \<open>
  An element of the list the RPC returns is a dictionary, or some other JSON value (a
  string, a number, null, a list), on which \<^verbatim>\<open>row.get\<close> raises \<^verbatim>\<open>AttributeError\<close>.
\<close>

datatype item = Dict row | Other

text \<open>
  A task made by \<^verbatim>\<open>asyncio.create_task(_run())\<close> is created, then suspended in the
  executor with its key, then finished with what \<^verbatim>\<open>_run\<close> returned or raised.
\<close>

datatype task = Created item | Suspended row string | Finished item "exn + string"

text \<open>
  The state the worker acts on: the three tables it reads or writes (the \<^verbatim>\<open>lead_id\<close> column
  of \<^verbatim>\<open>llm_response\<close>, the rows of \<^verbatim>\<open>gemini_api\<close>, the identifiers of \<^verbatim>\<open>lead_details\<close> whose
  \<^verbatim>\<open>sent_to_llm\<close> flag is set), the counter of the \<^verbatim>\<open>asyncio.Semaphore\<close>, every task the
  loop has created so far, in creation order, and the trace of calls, log lines, printed
  summaries and sleeps in the order they happen.
\<close>

record world =
  llm_response :: "string list"
  gemini_api :: "row list"
  sent_to_llm :: "string set"
  sem_value :: nat
  spawned :: "task list"
  trace :: "event list"

text \<open>What the outside answers during the first part of one \<^verbatim>\<open>_run\<close>: whether each store call
  raises, and the number \<^verbatim>\<open>random.choice\<close> draws.\<close>

record faults =
  exists_raises :: bool
  update_raises :: bool
  pool_raises :: bool
  draw :: nat

text \<open>How the wait for the executor ends: \<^verbatim>\<open>process_leads\<close> returns, it raises, or the task
  is cancelled while it waits.\<close>

datatype completion = Completes | Fails | Cancelled

subsection \<open>Small helpers\<close>

text \<open>\<^verbatim>\<open>resp.data or []\<close>\<close>

definition or_empty :: "'a list option \<Rightarrow> 'a list" where
  "or_empty d = (case d of None \<Rightarrow> [] | Some xs \<Rightarrow> xs)"

text \<open>\<^verbatim>\<open>not v\<close> for an optional string: true for \<open>None\<close> and for the empty string.\<close>

definition falsy :: "string option \<Rightarrow> bool" where
  "falsy v = (case v of None \<Rightarrow> True | Some s \<Rightarrow> s = [])"

definition emit :: "event \<Rightarrow> world \<Rightarrow> world" where
  "emit e w = w\<lparr>trace := trace w @ [e]\<rparr>"

text \<open>The events a computation added to the trace.\<close>

definition emitted :: "world \<Rightarrow> world \<Rightarrow> event list" where
  "emitted w w' = drop (length (trace w)) (trace w')"

fun is_log :: "event \<Rightarrow> bool" where
  "is_log (LogLine p l n d) = True"
| "is_log e = False"

fun is_process_leads :: "event \<Rightarrow> bool" where
  "is_process_leads (ProcessLeads p k a b c) = True"
| "is_process_leads e = False"

definition sem_release :: "world \<Rightarrow> world" where
  "sem_release w = emit SemRelease (w\<lparr>sem_value := Suc (sem_value w)\<rparr>)"

definition sem_acquire :: "world \<Rightarrow> world" where
  "sem_acquire w = emit SemAcquire (w\<lparr>sem_value := sem_value w - 1\<rparr>)"

subsection \<open>Credential pool accessor\<close>

text \<open>\<^verbatim>\<open>sb.table("gemini_api").select("api_key").execute()\<close>\<close>

definition select_gemini_api :: "faults \<Rightarrow> world \<Rightarrow> row response \<times> world" where
  "select_gemini_api orc w =
     (if pool_raises orc then Raises else Data (Some (gemini_api w)), emit SelectGeminiApi w)"

text \<open>
  \<^verbatim>\<open>random.choice(rows)\<close> reads the row at a position below \<^verbatim>\<open>len(rows)\<close>; the oracle's
  number is reduced modulo the length, so every number is a legal draw.
\<close>

definition pick_random_api_key :: "faults \<Rightarrow> world \<Rightarrow> string option \<times> world" where
  "pick_random_api_key orc w =
     (case select_gemini_api orc w of
        (Raises, w') \<Rightarrow> (None, w')
      | (Data d, w') \<Rightarrow>
          (let rows = or_empty d in
           if rows = [] then (None, w')
           else ((rows ! (draw orc mod length rows)) ''api_key'', w')))"

subsection \<open>Idempotency guard\<close>

text \<open>\<^verbatim>\<open>sb.table("llm_response").select("lead_id").eq("lead_id", lead_id).limit(1).execute()\<close>\<close>

definition select_llm_response :: "faults \<Rightarrow> string \<Rightarrow> world \<Rightarrow> string response \<times> world" where
  "select_llm_response orc lead_id w =
     (if exists_raises orc then Raises
      else Data (Some (take 1 (filter (\<lambda>l. l = lead_id) (llm_response w)))),
      emit (SelectLlmResponse lead_id) w)"

definition lead_already_processed :: "faults \<Rightarrow> string option \<Rightarrow> world \<Rightarrow> bool \<times> world" where
  "lead_already_processed orc lead_id w =
     (case lead_id of
        None \<Rightarrow> (False, w)
      | Some l \<Rightarrow>
          if l = [] then (False, w)
          else (case select_llm_response orc l w of
                  (Raises, w') \<Rightarrow> (False, w')
                | (Data d, w') \<Rightarrow> (0 < length (or_empty d), w')))"

subsection \<open>Task runner\<close>

text \<open>The best-effort update of \<^verbatim>\<open>lead_details\<close>: a failure is swallowed.\<close>

definition update_sent_to_llm :: "faults \<Rightarrow> string option \<Rightarrow> world \<Rightarrow> world" where
  "update_sent_to_llm orc lead_id w =
     emit (UpdateLeadDetails lead_id)
       (if update_raises orc then w
        else (case lead_id of
                None \<Rightarrow> w
              | Some l \<Rightarrow> w\<lparr>sent_to_llm := insert l (sent_to_llm w)\<rparr>))"

definition payload_keys :: "string list" where
  "payload_keys =
     [''lead_id'', ''tag'', ''name'', ''title'', ''location'', ''company_name'',
      ''experience'', ''skills'', ''bio'', ''profile_url'', ''linkedin_url'',
      ''company_page_url'']"

definition lead_payload :: "row \<Rightarrow> (string \<times> string option) list" where
  "lead_payload r = map (\<lambda>k. (k, r k)) payload_keys"

text \<open>
  \<^verbatim>\<open>_process_row\<close> up to its \<^verbatim>\<open>await\<close>: the call of \<^verbatim>\<open>process_leads\<close> is handed to the
  executor. What \<^verbatim>\<open>process_leads\<close> writes to the store is not part of this file.
\<close>

definition process_row :: "row \<Rightarrow> string \<Rightarrow> world \<Rightarrow> world" where
  "process_row r api_key w =
     emit (ProcessLeads (lead_payload r) api_key (r ''wildnet_data'')
             (r ''scoring_criteria_and_icp'') (r ''message_prompt'')) w"

text \<open>
  \<^verbatim>\<open>_run\<close> has one suspension point, the \<^verbatim>\<open>await\<close> of \<^verbatim>\<open>_process_row\<close>
  (\<^verbatim>\<open>_pick_random_api_key\<close> is awaited but never suspends). \<open>run_begin\<close> is the code before
  it and \<open>run_resume\<close> the code after it; each runs without interruption under the
  cooperative scheduler. The \<^verbatim>\<open>finally\<close> clause releases the semaphore where the coroutine
  ends. Nothing before the suspension point can raise: both store helpers and the update
  catch \<^verbatim>\<open>Exception\<close> themselves.
\<close>

datatype progress = Returned string | Awaiting string

definition run_begin :: "faults \<Rightarrow> row \<Rightarrow> world \<Rightarrow> progress \<times> world" where
  "run_begin orc r w =
     (let lead_id = r ''lead_id'' in
      case lead_already_processed orc lead_id w of
        (True, w1) \<Rightarrow>
          (Returned ''skipped'',
           sem_release
             (emit (LogLine SKIP lead_id (r ''name'') (Reason ''already_processed''))
                (update_sent_to_llm orc lead_id w1)))
      | (False, w1) \<Rightarrow>
          (case pick_random_api_key orc w1 of
             (api_key_local, w2) \<Rightarrow>
               (case api_key_local of
                  None \<Rightarrow> (Returned ''no_key'', sem_release w2)
                | Some k \<Rightarrow>
                    if k = [] then (Returned ''no_key'', sem_release w2)
                    else (Awaiting k,
                          process_row r k
                            (emit (LogLine START (r ''lead_id'') (r ''name'') (ApiKey (Some k)))
                               w2)))))"

definition run_resume :: "completion \<Rightarrow> row \<Rightarrow> string \<Rightarrow> world \<Rightarrow> (exn + string) \<times> world" where
  "run_resume c r k w =
     (case c of
        Completes \<Rightarrow>
          (Inr ''processed'',
           sem_release (emit (LogLine DONE (r ''lead_id'') (r ''name'') (ApiKey (Some k))) w))
      | Fails \<Rightarrow>
          (Inr ''error'',
           sem_release (emit (LogLine ERROR (r ''lead_id'') (r ''name'') (ApiKey (Some k))) w))
      | Cancelled \<Rightarrow> (Inl CancelledError, sem_release w))"

text \<open>One whole execution of \<^verbatim>\<open>_run\<close>.\<close>

definition run :: "faults \<Rightarrow> completion \<Rightarrow> row \<Rightarrow> world \<Rightarrow> (exn + string) \<times> world" where
  "run orc c r w =
     (case run_begin orc r w of
        (Returned s, w') \<Rightarrow> (Inr s, w')
      | (Awaiting k, w') \<Rightarrow> run_resume c r k w')"

subsection \<open>Dispatch through the semaphore\<close>

text \<open>
  The \<^verbatim>\<open>for\<close> loop of \<^verbatim>\<open>_worker_loop\<close> acquires the semaphore and then creates a task for
  the row; the tasks run interleaved with the loop and with each other, and switch only at
  an \<^verbatim>\<open>await\<close>. The state of the loop inside a cycle: the world, the rows not yet
  dispatched, the number of tasks that existed when the batch began, and the first
  exception a task of this batch has ended with, which is what \<^verbatim>\<open>asyncio.gather\<close> passes on
  as soon as the loop awaits it. The list \<^verbatim>\<open>tasks\<close> of the cycle is the tasks created
  since the batch began; tasks of an earlier batch that had not ended when its \<^verbatim>\<open>gather\<close>
  raised keep running and keep their permits.
\<close>

record loop_state =
  ws :: world
  pending :: "item list"
  base :: nat
  raised :: "exn option"

definition tasks :: "loop_state \<Rightarrow> task list" where
  "tasks s = drop (base s) (spawned (ws s))"

definition set_task :: "nat \<Rightarrow> task \<Rightarrow> world \<Rightarrow> world" where
  "set_task i t w = w\<lparr>spawned := (spawned w)[i := t]\<rparr>"

text \<open>A task of the current batch ends with an exception: \<^verbatim>\<open>gather\<close> keeps the first one.\<close>

definition first_raise :: "nat \<Rightarrow> exn \<Rightarrow> loop_state \<Rightarrow> exn option" where
  "first_raise i e s =
     (if base s \<le> i then (case raised s of None \<Rightarrow> Some e | Some x \<Rightarrow> Some x)
      else raised s)"

text \<open>
  One scheduling step.
  \<^item> \<open>Dispatch\<close>: the loop acquires a permit and creates the task of its next row.
  \<^item> \<open>Start\<close>: a created task runs up to its suspension point. For an item that is not a
    dictionary \<^verbatim>\<open>row.get\<close> raises in the \<^verbatim>\<open>try\<close> body and again in the handler, which builds
    its log line with \<^verbatim>\<open>row.get\<close>; the \<^verbatim>\<open>finally\<close> clause releases the permit and the task
    ends with that exception, without a log line.
  \<^item> \<open>Wake\<close>: a suspended task is woken.
  \<^item> \<open>Cancel\<close>: the loop is cancelled while it awaits \<^verbatim>\<open>gather\<close>, which cancels the
    tasks of the batch; a task that has not run its first step ends with
    \<^verbatim>\<open>CancelledError\<close> without entering the body of \<^verbatim>\<open>_run\<close>, so neither the \<^verbatim>\<open>try\<close> nor the
    \<^verbatim>\<open>finally\<close> runs. (A suspended task is cancelled by \<open>Wake\<close> with \<open>Cancelled\<close>.)

  A step that is not enabled (the semaphore is at zero and \<^verbatim>\<open>acquire\<close> stays suspended,
  or the task is not in the state asked for) leaves the state as it is, so every list of
  actions is an interleaving.
\<close>

datatype action = Dispatch | Start nat faults | Wake nat completion | Cancel nat

fun step :: "action \<Rightarrow> loop_state \<Rightarrow> loop_state" where
  "step Dispatch s =
     (case pending s of
        [] \<Rightarrow> s
      | it # its \<Rightarrow>
          if sem_value (ws s) = 0 then s
          else s\<lparr>ws := (sem_acquire (ws s))\<lparr>spawned := spawned (ws s) @ [Created it]\<rparr>,
                 pending := its\<rparr>)"
| "step (Start i orc) s =
     (if i < length (spawned (ws s)) then
        (case spawned (ws s) ! i of
           Created (Dict r) \<Rightarrow>
             (case run_begin orc r (ws s) of
                (Returned res, w') \<Rightarrow> s\<lparr>ws := set_task i (Finished (Dict r) (Inr res)) w'\<rparr>
              | (Awaiting k, w') \<Rightarrow> s\<lparr>ws := set_task i (Suspended r k) w'\<rparr>)
         | Created Other \<Rightarrow>
             s\<lparr>ws := set_task i (Finished Other (Inl Exception)) (sem_release (ws s)),
               raised := first_raise i Exception s\<rparr>
         | Suspended r k \<Rightarrow> s
         | Finished it res \<Rightarrow> s)
      else s)"
| "step (Wake i c) s =
     (if i < length (spawned (ws s)) then
        (case spawned (ws s) ! i of
           Created it \<Rightarrow> s
         | Suspended r k \<Rightarrow>
             (case run_resume c r k (ws s) of
                (res, w') \<Rightarrow>
                  s\<lparr>ws := set_task i (Finished (Dict r) res) w',
                    raised := (case res of Inl e \<Rightarrow> first_raise i e s | Inr v \<Rightarrow> raised s)\<rparr>)
         | Finished it res \<Rightarrow> s)
      else s)"
| "step (Cancel i) s =
     (if i < length (spawned (ws s)) \<and> base s \<le> i \<and> pending s = [] then
        (case spawned (ws s) ! i of
           Created it \<Rightarrow>
             s\<lparr>ws := set_task i (Finished it (Inl CancelledError)) (ws s),
               raised := first_raise i CancelledError s\<rparr>
         | Suspended r k \<Rightarrow> s
         | Finished it res \<Rightarrow> s)
      else s)"

fun exec :: "action list \<Rightarrow> loop_state \<Rightarrow> loop_state" where
  "exec [] s = s"
| "exec (a # as) s = exec as (step a s)"

definition batch_init :: "item list \<Rightarrow> world \<Rightarrow> loop_state" where
  "batch_init rows w = \<lparr>ws = w, pending = rows, base = length (spawned w), raised = None\<rparr>"

text \<open>The task runner executions in flight: the tasks created and not yet finished, of this
  batch and of earlier ones.\<close>

fun unfinished :: "task \<Rightarrow> nat" where
  "unfinished (Created it) = 1"
| "unfinished (Suspended r k) = 1"
| "unfinished (Finished it res) = 0"

definition in_flight :: "loop_state \<Rightarrow> nat" where
  "in_flight s = sum_list (map unfinished (spawned (ws s)))"

fun row_of :: "task \<Rightarrow> item" where
  "row_of (Created it) = it"
| "row_of (Suspended r k) = Dict r"
| "row_of (Finished it res) = it"

text \<open>
  The results of \<^verbatim>\<open>asyncio.gather(*tasks)\<close> once every task has ended: \<open>None\<close> while a task
  has not finished; then the results in task order, or the exception of a task that raised.
\<close>

fun gather :: "task list \<Rightarrow> (exn + string list) option" where
  "gather [] = Some (Inr [])"
| "gather (Finished r (Inl e) # ts) =
     (case gather ts of None \<Rightarrow> None | Some x \<Rightarrow> Some (Inl e))"
| "gather (Finished r (Inr res) # ts) =
     (case gather ts of
        None \<Rightarrow> None
      | Some (Inl e) \<Rightarrow> Some (Inl e)
      | Some (Inr rs) \<Rightarrow> Some (Inr (res # rs)))"
| "gather (Created r # ts) = None"
| "gather (Suspended r k # ts) = None"

text \<open>
  What \<^verbatim>\<open>await asyncio.gather(*tasks)\<close> gives the loop: the first exception a task of the
  batch has ended with, at once and while the other tasks still run; otherwise the results,
  when every task has ended.
\<close>

definition awaited :: "loop_state \<Rightarrow> (exn + string list) option" where
  "awaited s = (case raised s of Some e \<Rightarrow> Some (Inl e) | None \<Rightarrow> gather (tasks s))"

subsection \<open>Aggregation\<close>

text \<open>\<^verbatim>\<open>sum(1 for r in results if ...)\<close>, three times.\<close>

definition processed_count :: "string list \<Rightarrow> nat" where
  "processed_count results = (\<Sum>r\<leftarrow>filter (\<lambda>r. r = ''processed'') results. 1)"

definition skipped_count :: "string list \<Rightarrow> nat" where
  "skipped_count results = (\<Sum>r\<leftarrow>filter (\<lambda>r. r \<in> set [''skipped'', ''no_key'']) results. 1)"

definition error_count :: "string list \<Rightarrow> nat" where
  "error_count results = (\<Sum>r\<leftarrow>filter (\<lambda>r. r = ''error'') results. 1)"

subsection \<open>The worker loop\<close>

record config =
  supabase_url :: "string option"
  supabase_service_role_key :: "string option"
  supabase_anon_key :: "string option"
  poll_interval_sec :: rat
  max_concurrency :: int
  client_rejected :: bool

text \<open>
  The environment defaults: \<^verbatim>\<open>POLL_INTERVAL_SEC\<close> is 5 and \<^verbatim>\<open>MAX_CONCURRENCY\<close> is 3. The
  last field says whether \<^verbatim>\<open>create_client\<close> raises on the URL and key it is given.
\<close>

definition load_config ::
  "string option \<Rightarrow> string option \<Rightarrow> string option \<Rightarrow> rat option \<Rightarrow> int option \<Rightarrow> bool
     \<Rightarrow> config" where
  "load_config url role anon poll conc rejected =
     \<lparr>supabase_url = url, supabase_service_role_key = role, supabase_anon_key = anon,
      poll_interval_sec = (case poll of None \<Rightarrow> 5 | Some p \<Rightarrow> p),
      max_concurrency = (case conc of None \<Rightarrow> 3 | Some n \<Rightarrow> n),
      client_rejected = rejected\<rparr>"

definition make_supabase_client :: "config \<Rightarrow> exn + unit" where
  "make_supabase_client cfg =
     (let key = (if falsy (supabase_service_role_key cfg) then supabase_anon_key cfg
                 else supabase_service_role_key cfg)
      in if falsy (supabase_url cfg) \<or> falsy key then Inl Exception
         else if client_rejected cfg then Inl Exception
         else Inr ())"

text \<open>\<^verbatim>\<open>asyncio.Semaphore(value)\<close> raises \<^verbatim>\<open>ValueError\<close> for a negative value.\<close>

definition Semaphore :: "int \<Rightarrow> exn + nat" where
  "Semaphore v = (if v < 0 then Inl Exception else Inr (nat v))"

text \<open>What the outside answers during one cycle: the two readings of the monotonic clock,
  the answer to the RPC, and the interleaving of the batch.\<close>

record cycle_oracle =
  clock_start :: rat
  clock_end :: rat
  fetch :: "item response"
  schedule :: "action list"

text \<open>
  One pass through the body of \<^verbatim>\<open>while True\<close>. The pass continues with the next one, or an
  exception that \<^verbatim>\<open>except Exception\<close> does not catch leaves the loop, or the schedule ends
  while the loop still waits for a permit or for \<^verbatim>\<open>gather\<close>. The handler of
  \<^verbatim>\<open>except Exception\<close> only sleeps; it is reached from the fetch and from \<^verbatim>\<open>gather\<close>.
\<close>

datatype pass = Continue world | Escapes exn world | Unsettled loop_state

definition cycle :: "config \<Rightarrow> cycle_oracle \<Rightarrow> world \<Rightarrow> pass" where
  "cycle cfg co w =
     (let w1 = emit (Rpc ''rpc_get_eligible_llm_jobs_v2'') w in
      case fetch co of
        Raises \<Rightarrow> Continue (emit (Sleep (poll_interval_sec cfg)) w1)
      | Data d \<Rightarrow>
          (let rows = or_empty d in
           if rows = [] then
             Continue
               (emit (Sleep (poll_interval_sec cfg))
                  (emit (Print \<lparr>total = 0, processed = 0, skipped = 0, errors = 0,
                                duration = clock_end co - clock_start co\<rparr>) w1))
           else
             (let s = exec (schedule co) (batch_init rows w1) in
              if pending s \<noteq> [] then Unsettled s
              else
                (case (if tasks s \<noteq> [] then awaited s else Some (Inr [])) of
                   None \<Rightarrow> Unsettled s
                 | Some (Inl Exception) \<Rightarrow> Continue (emit (Sleep (poll_interval_sec cfg)) (ws s))
                 | Some (Inl CancelledError) \<Rightarrow> Escapes CancelledError (ws s)
                 | Some (Inr results) \<Rightarrow>
                     Continue
                       (emit (Print \<lparr>total = length rows,
                                     processed = processed_count results,
                                     skipped = skipped_count results,
                                     errors = error_count results,
                                     duration = clock_end co - clock_start co\<rparr>)
                          (emit (Sleep (1 / 10)) (ws s)))))))"

text \<open>The loop over a list of cycle oracles: \<open>Continue\<close> at the end of the list means that
  the loop is still running.\<close>

fun worker_cycles :: "config \<Rightarrow> cycle_oracle list \<Rightarrow> world \<Rightarrow> pass" where
  "worker_cycles cfg [] w = Continue w"
| "worker_cycles cfg (co # rest) w =
     (case cycle cfg co w of
        Continue w' \<Rightarrow> worker_cycles cfg rest w'
      | Escapes e w' \<Rightarrow> Escapes e w'
      | Unsettled s \<Rightarrow> Unsettled s)"

text \<open>\<^verbatim>\<open>_worker_loop\<close>: the client and the semaphore are made outside the \<^verbatim>\<open>try\<close>, so their
  exceptions end the worker. The loop starts with a fresh semaphore and no task.\<close>

definition worker_loop :: "config \<Rightarrow> cycle_oracle list \<Rightarrow> world \<Rightarrow> pass" where
  "worker_loop cfg os w =
     (case make_supabase_client cfg of
        Inl e \<Rightarrow> Escapes e w
      | Inr u \<Rightarrow>
          (case Semaphore (max_concurrency cfg) of
             Inl e \<Rightarrow> Escapes e w
           | Inr n \<Rightarrow> worker_cycles cfg os (w\<lparr>sem_value := n, spawned := []\<rparr>)))"

subsection \<open>Derived notions and example inputs\<close>

text \<open>The events the idempotency guard adds: one query, unless the identifier is absent.\<close>

definition guard_events :: "string option \<Rightarrow> event list" where
  "guard_events lid =
     (case lid of None \<Rightarrow> [] | Some l \<Rightarrow> if l = [] then [] else [SelectLlmResponse l])"

definition no_faults :: faults where
  "no_faults = \<lparr>exists_raises = False, update_raises = False, pool_raises = False, draw = 0\<rparr>"

definition query_fails :: faults where
  "query_fails = \<lparr>exists_raises = True, update_raises = False, pool_raises = False, draw = 0\<rparr>"

definition row_L1 :: row where
  "row_L1 = [''lead_id'' \<mapsto> ''L1'', ''name'' \<mapsto> ''Ann'']"

definition row_anon :: row where
  "row_anon = [''name'' \<mapsto> ''Bob'']"

text \<open>A store with a result for \<open>L1\<close> and one credential; a store whose only credential row
  has no key.\<close>

definition store_L1 :: world where
  "store_L1 = \<lparr>llm_response = [''L1''], gemini_api = [[''api_key'' \<mapsto> ''k1'']],
                sent_to_llm = {}, sem_value = 2, spawned = [], trace = []\<rparr>"

definition store_keyless :: world where
  "store_keyless = \<lparr>llm_response = [], gemini_api = [Map.empty],
                     sent_to_llm = {}, sem_value = 2, spawned = [], trace = []\<rparr>"

text \<open>The four tags \<^verbatim>\<open>_run\<close> returns, and the results a finished task can carry.\<close>

definition outcome_tags :: "string set" where
  "outcome_tags = {''processed'', ''skipped'', ''no_key'', ''error''}"

fun task_ok :: "task \<Rightarrow> bool" where
  "task_ok (Finished it (Inr res)) = (res \<in> outcome_tags)"
| "task_ok (Finished it (Inl e)) = True"
| "task_ok (Created it) = True"
| "task_ok (Suspended r k) = True"

fun failed :: "task \<Rightarrow> bool" where
  "failed (Finished it (Inl e)) = True"
| "failed (Finished it (Inr res)) = False"
| "failed (Created it) = False"
| "failed (Suspended r k) = False"

text \<open>The state after the RPC has been issued, and the state of the batch at the end of the
  cycle's schedule.\<close>

definition rpc_done :: "world \<Rightarrow> world" where
  "rpc_done w = emit (Rpc ''rpc_get_eligible_llm_jobs_v2'') w"

definition batch_state :: "cycle_oracle \<Rightarrow> item list \<Rightarrow> world \<Rightarrow> loop_state" where
  "batch_state co rows w = exec (schedule co) (batch_init rows (rpc_done w))"

text \<open>The summaries a pass has printed; the events that report something (a log line or a
  printed summary).\<close>

fun printed_of :: "event \<Rightarrow> summary list" where
  "printed_of (Print sm) = [sm]"
| "printed_of e = []"

definition summaries :: "pass \<Rightarrow> summary list" where
  "summaries p = (case p of Continue w \<Rightarrow> concat (map printed_of (trace w)) | Escapes e w \<Rightarrow> [] | Unsettled s \<Rightarrow> [])"

fun is_report :: "event \<Rightarrow> bool" where
  "is_report (LogLine p l n d) = True"
| "is_report (Print sm) = True"
| "is_report e = False"

text \<open>Example configurations and cycles.\<close>

definition cfg_ex :: config where
  "cfg_ex = load_config (Some ''https://db'') (Some ''role'') None None None False"

definition fetch_fails :: cycle_oracle where
  "fetch_fails = \<lparr>clock_start = 0, clock_end = 1, fetch = Raises, schedule = []\<rparr>"

definition fetch_nothing :: cycle_oracle where
  "fetch_nothing = \<lparr>clock_start = 0, clock_end = 1, fetch = Data (Some []), schedule = []\<rparr>"

definition fetch_one :: "row \<Rightarrow> cycle_oracle" where
  "fetch_one r = \<lparr>clock_start = 0, clock_end = 1, fetch = Data (Some [Dict r]),
                  schedule = [Dispatch, Start 0 no_faults]\<rparr>"

definition cfg_one :: config where
  "cfg_one = load_config (Some ''https://db'') None (Some ''anon'') None (Some 1) False"

definition fetch_two :: cycle_oracle where
  "fetch_two = \<lparr>clock_start = 0, clock_end = 1, fetch = Data (Some [Dict row_anon, Dict row_L1]),
                 schedule = [Dispatch, Dispatch]\<rparr>"

text \<open>A cycle whose only item is not a dictionary; a cycle with a row and such an item; the
  schedule of a batch of two rows whose tasks are cancelled before their first step.\<close>

definition fetch_malformed :: cycle_oracle where
  "fetch_malformed = \<lparr>clock_start = 0, clock_end = 1, fetch = Data (Some [Other]),
                       schedule = [Dispatch, Start 0 no_faults]\<rparr>"

definition fetch_mixed :: cycle_oracle where
  "fetch_mixed = \<lparr>clock_start = 0, clock_end = 1, fetch = Data (Some [Dict row_anon, Other]),
                   schedule = [Dispatch, Dispatch, Start 0 no_faults, Start 1 no_faults]\<rparr>"

definition cancel_early :: "action list" where
  "cancel_early = [Dispatch, Dispatch, Cancel 0, Cancel 1]"

definition store_three_permits :: world where
  "store_three_permits = \<lparr>llm_response = [], gemini_api = [[''api_key'' \<mapsto> ''k1'']],
                            sent_to_llm = {}, sem_value = 3, spawned = [], trace = []\<rparr>"

fun is_release :: "event \<Rightarrow> bool" where
  "is_release SemRelease = True"
| "is_release e = False"

fun is_acquire :: "event \<Rightarrow> bool" where
  "is_acquire SemAcquire = True"
| "is_acquire e = False"

text \<open>The task a created task becomes at its first step; the state after the two tasks of
  a batch have been cancelled before their first step.\<close>

definition began :: "row \<Rightarrow> progress \<Rightarrow> task" where
  "began r p = (case p of Returned res \<Rightarrow> Finished (Dict r) (Inr res) | Awaiting k \<Rightarrow> Suspended r k)"

definition leaked_state :: loop_state where
  "leaked_state = exec cancel_early (batch_init [Dict row_L1, Dict row_anon] store_three_permits)"

text \<open>The tasks of the batch, by position in the table.\<close>

definition batch_all :: "(task \<Rightarrow> bool) \<Rightarrow> loop_state \<Rightarrow> bool" where
  "batch_all P s = (\<forall>j. base s \<le> j \<and> j < length (spawned (ws s)) \<longrightarrow> P (spawned (ws s) ! j))"

text \<open>The invariant of a batch: the table is at least as long as when the batch began, every
  result of the batch is a tag, and an exception is recorded exactly when a task of the
  batch has ended with one.\<close>

definition batch_inv :: "loop_state \<Rightarrow> bool" where
  "batch_inv s \<longleftrightarrow> base s \<le> length (spawned (ws s)) \<and> batch_all task_ok s
     \<and> (raised s = None \<longleftrightarrow> batch_all (\<lambda>t. \<not> failed t) s)"

section \<open>Properties\<close>

subsection \<open>Projections of the helpers\<close>

lemma emit_simps:
  "trace (emit e w) = trace w @ [e]"
  "sem_value (emit e w) = sem_value w"
  "llm_response (emit e w) = llm_response w"
  "gemini_api (emit e w) = gemini_api w"
  "sent_to_llm (emit e w) = sent_to_llm w"
  "spawned (emit e w) = spawned w"
  by (simp_all add: emit_def)

lemma sem_release_simps:
  "trace (sem_release w) = trace w @ [SemRelease]"
  "sem_value (sem_release w) = Suc (sem_value w)"
  "llm_response (sem_release w) = llm_response w"
  "gemini_api (sem_release w) = gemini_api w"
  "spawned (sem_release w) = spawned w"
  by (simp_all add: sem_release_def emit_def)

lemma lead_already_processed_fst:
  "fst (lead_already_processed orc lid w) \<longleftrightarrow>
     (\<exists>l. lid = Some l \<and> l \<noteq> [] \<and> \<not> exists_raises orc \<and> l \<in> set (llm_response w))"
  by (auto simp: lead_already_processed_def select_llm_response_def or_empty_def
      filter_empty_conv split: option.splits)

lemma lead_already_processed_snd:
  "snd (lead_already_processed orc lid w) =
     (case lid of None \<Rightarrow> w | Some l \<Rightarrow> if l = [] then w else emit (SelectLlmResponse l) w)"
  by (auto simp: lead_already_processed_def select_llm_response_def split: option.splits)

lemma pick_random_api_key_snd:
  "snd (pick_random_api_key orc w) = emit SelectGeminiApi w"
  by (auto simp: pick_random_api_key_def select_gemini_api_def Let_def split: option.splits)

lemma pick_random_api_key_fst:
  "fst (pick_random_api_key orc w) =
     (if pool_raises orc \<or> gemini_api w = [] then None
      else (gemini_api w ! (draw orc mod length (gemini_api w))) ''api_key'')"
  by (auto simp: pick_random_api_key_def select_gemini_api_def Let_def or_empty_def
      split: option.splits)

lemma run_begin_skipped:
  assumes "fst (lead_already_processed orc (r ''lead_id'') w)"
  shows "run_begin orc r w =
     (Returned ''skipped'',
      sem_release (emit (LogLine SKIP (r ''lead_id'') (r ''name'') (Reason ''already_processed''))
         (update_sent_to_llm orc (r ''lead_id'') (snd (lead_already_processed orc (r ''lead_id'') w)))))"
  using assms by (simp add: run_begin_def Let_def split_beta split: bool.splits)

lemma run_begin_no_key:
  assumes "\<not> fst (lead_already_processed orc (r ''lead_id'') w)"
    and "falsy (fst (pick_random_api_key orc (snd (lead_already_processed orc (r ''lead_id'') w))))"
  shows "run_begin orc r w =
     (Returned ''no_key'',
      sem_release (snd (pick_random_api_key orc (snd (lead_already_processed orc (r ''lead_id'') w)))))"
  using assms by (simp add: run_begin_def Let_def split_beta falsy_def split: bool.splits option.splits)

lemma run_begin_awaiting:
  assumes "\<not> fst (lead_already_processed orc (r ''lead_id'') w)"
    and "fst (pick_random_api_key orc (snd (lead_already_processed orc (r ''lead_id'') w))) = Some k"
    and "k \<noteq> []"
  shows "run_begin orc r w =
     (Awaiting k,
      process_row r k (emit (LogLine START (r ''lead_id'') (r ''name'') (ApiKey (Some k)))
        (snd (pick_random_api_key orc (snd (lead_already_processed orc (r ''lead_id'') w))))))"
  using assms by (simp add: run_begin_def Let_def split_beta split: bool.splits option.splits)

lemma update_sent_to_llm_simps:
  "trace (update_sent_to_llm orc lid w) = trace w @ [UpdateLeadDetails lid]"
  "sem_value (update_sent_to_llm orc lid w) = sem_value w"
  by (simp_all add: update_sent_to_llm_def emit_def split: option.splits)

lemma process_row_simps:
  "trace (process_row r k w) =
     trace w @ [ProcessLeads (lead_payload r) k (r ''wildnet_data'')
                  (r ''scoring_criteria_and_icp'') (r ''message_prompt'')]"
  "sem_value (process_row r k w) = sem_value w"
  by (simp_all add: process_row_def emit_def)

lemma guard_simps:
  "trace (snd (lead_already_processed orc lid w)) = trace w @ guard_events lid"
  "sem_value (snd (lead_already_processed orc lid w)) = sem_value w"
  "gemini_api (snd (lead_already_processed orc lid w)) = gemini_api w"
  by (simp_all add: lead_already_processed_snd guard_events_def emit_def split: option.splits)

lemma pick_simps:
  "trace (snd (pick_random_api_key orc w)) = trace w @ [SelectGeminiApi]"
  "sem_value (snd (pick_random_api_key orc w)) = sem_value w"
  by (simp_all add: pick_random_api_key_snd emit_def)

lemma pick_after_guard:
  "fst (pick_random_api_key orc (snd (lead_already_processed orc' lid w))) =
     fst (pick_random_api_key orc w)"
  by (simp add: pick_random_api_key_fst guard_simps)

lemma run_begin_cases:
  obtains
    (skipped) "fst (lead_already_processed orc (r ''lead_id'') w)"
      "fst (run_begin orc r w) = Returned ''skipped''"
      "trace (snd (run_begin orc r w)) = trace w @ guard_events (r ''lead_id'') @
         [UpdateLeadDetails (r ''lead_id''),
          LogLine SKIP (r ''lead_id'') (r ''name'') (Reason ''already_processed''), SemRelease]"
      "sem_value (snd (run_begin orc r w)) = Suc (sem_value w)"
  | (no_key) "\<not> fst (lead_already_processed orc (r ''lead_id'') w)"
      "falsy (fst (pick_random_api_key orc w))"
      "fst (run_begin orc r w) = Returned ''no_key''"
      "trace (snd (run_begin orc r w)) = trace w @ guard_events (r ''lead_id'') @
         [SelectGeminiApi, SemRelease]"
      "sem_value (snd (run_begin orc r w)) = Suc (sem_value w)"
  | (awaiting) k where "\<not> fst (lead_already_processed orc (r ''lead_id'') w)"
      "fst (pick_random_api_key orc w) = Some k" "k \<noteq> []"
      "fst (run_begin orc r w) = Awaiting k"
      "trace (snd (run_begin orc r w)) = trace w @ guard_events (r ''lead_id'') @
         [SelectGeminiApi, LogLine START (r ''lead_id'') (r ''name'') (ApiKey (Some k)),
          ProcessLeads (lead_payload r) k (r ''wildnet_data'')
                  (r ''scoring_criteria_and_icp'') (r ''message_prompt'')]"
      "sem_value (snd (run_begin orc r w)) = sem_value w"
proof (cases "fst (lead_already_processed orc (r ''lead_id'') w)")
  case True
  show thesis
    by (rule skipped)
      (simp_all add: True run_begin_skipped [of orc r w] sem_release_simps emit_simps
        update_sent_to_llm_simps guard_simps)
next
  case False
  let ?w1 = "snd (lead_already_processed orc (r ''lead_id'') w)"
  show thesis
  proof (cases "falsy (fst (pick_random_api_key orc w))")
    case True
    then have f: "falsy (fst (pick_random_api_key orc ?w1))"
      by (simp add: pick_after_guard)
    show thesis
      by (rule no_key)
        (simp_all add: False True f run_begin_no_key [of orc r w] sem_release_simps pick_simps
          guard_simps)
  next
    case nf: False
    then obtain k where k: "fst (pick_random_api_key orc w) = Some k" "k \<noteq> []"
      by (auto simp: falsy_def split: option.splits)
    then have k1: "fst (pick_random_api_key orc ?w1) = Some k"
      by (simp add: pick_after_guard)
    show thesis
      by (rule awaiting [of k])
        (simp_all add: False k k1 run_begin_awaiting [of orc r w k] process_row_simps
          emit_simps pick_simps guard_simps)
  qed
qed

lemma run_resume_simps:
  "fst (run_resume c r k w) =
     (case c of Completes \<Rightarrow> Inr ''processed'' | Fails \<Rightarrow> Inr ''error''
      | Cancelled \<Rightarrow> Inl CancelledError)"
  "trace (snd (run_resume c r k w)) = trace w @
     (case c of
        Completes \<Rightarrow> [LogLine DONE (r ''lead_id'') (r ''name'') (ApiKey (Some k)), SemRelease]
      | Fails \<Rightarrow> [LogLine ERROR (r ''lead_id'') (r ''name'') (ApiKey (Some k)), SemRelease]
      | Cancelled \<Rightarrow> [SemRelease])"
  "sem_value (snd (run_resume c r k w)) = Suc (sem_value w)"
  by (simp_all add: run_resume_def sem_release_simps emit_simps split: completion.splits)

lemma run_unfold:
  "run orc c r w =
     (case fst (run_begin orc r w) of
        Returned s \<Rightarrow> (Inr s, snd (run_begin orc r w))
      | Awaiting k \<Rightarrow> run_resume c r k (snd (run_begin orc r w)))"
  by (simp add: run_def split_beta split: progress.splits prod.splits)

subsection \<open>Evaluation on the example inputs\<close>

lemmas ex_defs = no_faults_def row_L1_def row_anon_def store_L1_def store_keyless_def

lemmas eval_defs = run_def run_begin_def run_resume_def lead_already_processed_def
  select_llm_response_def pick_random_api_key_def select_gemini_api_def
  update_sent_to_llm_def process_row_def sem_release_def emit_def or_empty_def
  emitted_def Let_def lead_payload_def payload_keys_def

subsection \<open>The permit\<close>

text \<open>
  An execution of \<^verbatim>\<open>_run\<close> whose body has been entered releases the semaphore exactly once,
  as its last action, however it ends: with a returned tag (success, skip, no key, handled
  failure) or with the cancellation raised at its suspension point.
\<close>

lemma run_releases_once:
  "count_list (emitted w (snd (run orc c r w))) SemRelease = 1
   \<and> last (trace (snd (run orc c r w))) = SemRelease
   \<and> sem_value (snd (run orc c r w)) = Suc (sem_value w)"
proof (cases rule: run_begin_cases [of orc r w])
  case skipped
  then show ?thesis
    by (simp add: run_unfold emitted_def guard_events_def split: option.splits)
next
  case no_key
  then show ?thesis
    by (simp add: run_unfold emitted_def guard_events_def split: option.splits)
next
  case (awaiting k)
  then show ?thesis
    by (cases c) (simp_all add: run_unfold run_resume_simps emitted_def guard_events_def
        split: option.splits)
qed

subsection \<open>Idempotency\<close>

text \<open>
  The guard answers \<open>False\<close> when its query raises. The row \<open>L1\<close> has a recorded result;
  with a failing query it is sent to \<^verbatim>\<open>process_leads\<close> and classified processed.
\<close>

theorem run_existing_result_query_fails:
  "row_L1 ''lead_id'' = Some ''L1'' \<and> ''L1'' \<in> set (llm_response store_L1)
   \<and> fst (run query_fails Completes row_L1 store_L1) = Inr ''processed''
   \<and> length (filter is_process_leads (emitted store_L1 (snd (run query_fails Completes row_L1 store_L1)))) = 1"
  by (simp add: eval_defs ex_defs query_fails_def)

text \<open>
  C4, amended. A row whose identifier is non-empty and has a recorded result is classified
  skipped, and \<^verbatim>\<open>process_leads\<close> is not called for it, whenever the existence query
  does not raise; this holds for every completion, every other fault and every credential
  pool.
\<close>

theorem run_existing_result_skipped:
  assumes "r ''lead_id'' = Some l" and "l \<noteq> []" and "l \<in> set (llm_response w)"
    and "\<not> exists_raises orc"
  shows "fst (run orc c r w) = Inr ''skipped''
     \<and> filter is_process_leads (emitted w (snd (run orc c r w))) = []"
proof -
  have g: "fst (lead_already_processed orc (r ''lead_id'') w)"
    using assms by (simp add: lead_already_processed_fst)
  show ?thesis
  proof (cases rule: run_begin_cases [of orc r w])
    case skipped
    then show ?thesis
      by (simp add: run_unfold emitted_def guard_events_def assms)
  next
    case no_key
    with g show ?thesis by simp
  next
    case (awaiting k)
    with g show ?thesis by simp
  qed
qed

theorem run_existing_result_skipped_witness:
  "fst (run no_faults Completes row_L1 store_L1) = Inr ''skipped''
     \<and> filter is_process_leads (emitted store_L1 (snd (run no_faults Completes row_L1 store_L1))) = []"
  using run_existing_result_skipped [of row_L1 "''L1''" store_L1 no_faults Completes]
  by (simp add: ex_defs)

subsection \<open>Credential pool accessor\<close>

text \<open>
  The accessor returns what \<^verbatim>\<open>.get("api_key")\<close> reads in the drawn row. With a pool of
  one row that carries no key it returns \<open>None\<close>, although the pool is not empty and the
  query did not raise.
\<close>

theorem pick_none_with_pool:
  "gemini_api store_keyless \<noteq> [] \<and> \<not> pool_raises no_faults
   \<and> fst (pick_random_api_key no_faults store_keyless) = None"
  by (simp add: eval_defs ex_defs)

text \<open>
  C5, amended. Every invocation issues one query of the credential table and changes
  nothing else, so nothing is kept between calls. The result is \<open>None\<close> exactly when the
  query raises, the pool is empty, or the drawn row carries no key; otherwise it is the key
  of the row at the drawn position, a row of the fetched pool. The result is always a value:
  a store error becomes \<open>None\<close>.
\<close>

theorem pick_random_api_key_spec:
  "snd (pick_random_api_key orc w) = emit SelectGeminiApi w
   \<and> (fst (pick_random_api_key orc w) = None \<longleftrightarrow>
        pool_raises orc \<or> gemini_api w = []
        \<or> (gemini_api w ! (draw orc mod length (gemini_api w))) ''api_key'' = None)
   \<and> (\<forall>k. fst (pick_random_api_key orc w) = Some k \<longrightarrow>
        \<not> pool_raises orc
        \<and> gemini_api w ! (draw orc mod length (gemini_api w)) \<in> set (gemini_api w)
        \<and> (gemini_api w ! (draw orc mod length (gemini_api w))) ''api_key'' = Some k)"
proof (intro conjI allI impI)
  show "snd (pick_random_api_key orc w) = emit SelectGeminiApi w"
    by (rule pick_random_api_key_snd)
  show "fst (pick_random_api_key orc w) = None \<longleftrightarrow>
        pool_raises orc \<or> gemini_api w = []
        \<or> (gemini_api w ! (draw orc mod length (gemini_api w))) ''api_key'' = None"
    by (simp add: pick_random_api_key_fst)
next
  fix k assume k: "fst (pick_random_api_key orc w) = Some k"
  then show "\<not> pool_raises orc"
    by (simp add: pick_random_api_key_fst split: if_splits)
  from k have ne: "gemini_api w \<noteq> []"
    and sel: "(gemini_api w ! (draw orc mod length (gemini_api w))) ''api_key'' = Some k"
    by (simp_all add: pick_random_api_key_fst split: if_splits)
  from ne have "draw orc mod length (gemini_api w) < length (gemini_api w)" by simp
  then show "gemini_api w ! (draw orc mod length (gemini_api w)) \<in> set (gemini_api w)"
    by (rule nth_mem)
  from sel show "(gemini_api w ! (draw orc mod length (gemini_api w))) ''api_key'' = Some k" .
qed

theorem pick_random_api_key_spec_witness:
  "fst (pick_random_api_key no_faults store_L1) = Some ''k1''
   \<and> fst (pick_random_api_key no_faults store_keyless) = None
   \<and> (\<exists>row \<in> set (gemini_api store_L1). row ''api_key'' = Some ''k1'')"
  using pick_random_api_key_spec [of no_faults store_L1]
    pick_random_api_key_spec [of no_faults store_keyless]
  by (auto simp: ex_defs)


subsection \<open>Rows without an identifier\<close>

text \<open>
  C10. For a row whose identifier is missing or empty the guard answers \<open>False\<close> without
  touching the store, whatever results the store holds. The row is never classified
  skipped, the credential pool is always queried, and when the accessor returns a
  non-empty key the row is handed to \<^verbatim>\<open>process_leads\<close> with that key.
\<close>

theorem run_absent_identifier:
  assumes "r ''lead_id'' = None \<or> r ''lead_id'' = Some []"
  shows "lead_already_processed orc (r ''lead_id'') w = (False, w)
     \<and> fst (run orc c r w) \<noteq> Inr ''skipped''
     \<and> SelectGeminiApi \<in> set (emitted w (snd (run orc c r w)))
     \<and> (\<forall>k. fst (pick_random_api_key orc w) = Some k \<and> k \<noteq> [] \<longrightarrow>
          ProcessLeads (lead_payload r) k (r ''wildnet_data'') (r ''scoring_criteria_and_icp'')
            (r ''message_prompt'') \<in> set (emitted w (snd (run orc c r w))))"
proof -
  have g: "lead_already_processed orc (r ''lead_id'') w = (False, w)"
    using assms by (auto simp: lead_already_processed_def)
  then have ng: "\<not> fst (lead_already_processed orc (r ''lead_id'') w)" by simp
  show ?thesis
  proof (cases rule: run_begin_cases [of orc r w])
    case skipped
    with ng show ?thesis by simp
  next
    case no_key
    then show ?thesis
      by (auto simp: g run_unfold emitted_def falsy_def)
  next
    case (awaiting k)
    then show ?thesis
      by (cases c) (simp_all add: g run_unfold run_resume_simps emitted_def)
  qed
qed

theorem run_absent_identifier_witness:
  "fst (run no_faults Completes row_anon store_L1) \<noteq> Inr ''skipped''
   \<and> SelectGeminiApi \<in> set (emitted store_L1 (snd (run no_faults Completes row_anon store_L1)))
   \<and> ProcessLeads (lead_payload row_anon) ''k1'' None None None
        \<in> set (emitted store_L1 (snd (run no_faults Completes row_anon store_L1)))"
proof -
  have a: "row_anon ''lead_id'' = None \<or> row_anon ''lead_id'' = Some []"
    by (simp add: row_anon_def)
  have k: "fst (pick_random_api_key no_faults store_L1) = Some ''k1''"
    by (simp add: pick_random_api_key_fst ex_defs)
  have c: "row_anon ''wildnet_data'' = None" "row_anon ''scoring_criteria_and_icp'' = None"
    "row_anon ''message_prompt'' = None"
    by (simp_all add: row_anon_def)
  from a k c run_absent_identifier [where r = row_anon and orc = no_faults and w = store_L1 and c = Completes]
  show ?thesis by auto
qed

subsection \<open>Log events of one execution\<close>

text \<open>
  C7. The log lines one execution of \<^verbatim>\<open>_run\<close> writes are: one SKIP line when it returns
  skipped; a START line then a DONE line, with the row's identifier, name and the same key,
  when it returns processed; a START line then an ERROR line, and no DONE line, when it
  returns error; none when it returns no_key.
\<close>

theorem run_log_events:
  "(fst (run orc c r w) = Inr ''skipped'' \<longrightarrow>
      filter is_log (emitted w (snd (run orc c r w))) =
        [LogLine SKIP (r ''lead_id'') (r ''name'') (Reason ''already_processed'')])
   \<and> (fst (run orc c r w) = Inr ''processed'' \<longrightarrow>
      (\<exists>k. filter is_log (emitted w (snd (run orc c r w))) =
        [LogLine START (r ''lead_id'') (r ''name'') (ApiKey (Some k)),
         LogLine DONE (r ''lead_id'') (r ''name'') (ApiKey (Some k))]))
   \<and> (fst (run orc c r w) = Inr ''error'' \<longrightarrow>
      (\<exists>k. filter is_log (emitted w (snd (run orc c r w))) =
        [LogLine START (r ''lead_id'') (r ''name'') (ApiKey (Some k)),
         LogLine ERROR (r ''lead_id'') (r ''name'') (ApiKey (Some k))]))
   \<and> (fst (run orc c r w) = Inr ''no_key'' \<longrightarrow>
      filter is_log (emitted w (snd (run orc c r w))) = [])"
proof (cases rule: run_begin_cases [of orc r w])
  case skipped
  then show ?thesis
    by (simp add: run_unfold emitted_def guard_events_def split: option.splits)
next
  case no_key
  then show ?thesis
    by (simp add: run_unfold emitted_def guard_events_def split: option.splits)
next
  case (awaiting k)
  then show ?thesis
    by (cases c) (simp_all add: run_unfold run_resume_simps emitted_def guard_events_def
        split: option.splits)
qed

theorem run_log_events_witness:
  "fst (run no_faults Completes row_L1 store_L1) = Inr ''skipped''
   \<and> filter is_log (emitted store_L1 (snd (run no_faults Completes row_L1 store_L1))) =
     [LogLine SKIP (Some ''L1'') (Some ''Ann'') (Reason ''already_processed'')]
   \<and> fst (run no_faults Completes row_anon store_L1) = Inr ''processed''
   \<and> (\<exists>k. filter is_log (emitted store_L1 (snd (run no_faults Completes row_anon store_L1))) =
     [LogLine START None (Some ''Bob'') (ApiKey (Some k)),
      LogLine DONE None (Some ''Bob'') (ApiKey (Some k))])
   \<and> fst (run no_faults Fails row_anon store_L1) = Inr ''error''
   \<and> (\<exists>k. filter is_log (emitted store_L1 (snd (run no_faults Fails row_anon store_L1))) =
     [LogLine START None (Some ''Bob'') (ApiKey (Some k)),
      LogLine ERROR None (Some ''Bob'') (ApiKey (Some k))])
   \<and> fst (run no_faults Completes row_anon store_keyless) = Inr ''no_key''
   \<and> filter is_log (emitted store_keyless (snd (run no_faults Completes row_anon store_keyless))) = []"
proof -
  have 1: "fst (run no_faults Completes row_L1 store_L1) = Inr ''skipped''"
    by (simp add: eval_defs ex_defs)
  have 2: "fst (run no_faults Completes row_anon store_L1) = Inr ''processed''"
    by (simp add: eval_defs ex_defs)
  have 3: "fst (run no_faults Fails row_anon store_L1) = Inr ''error''"
    by (simp add: eval_defs ex_defs)
  have 4: "fst (run no_faults Completes row_anon store_keyless) = Inr ''no_key''"
    by (simp add: eval_defs ex_defs)
  have n: "row_L1 ''lead_id'' = Some ''L1''" "row_L1 ''name'' = Some ''Ann''"
    "row_anon ''lead_id'' = None" "row_anon ''name'' = Some ''Bob''"
    by (simp_all add: ex_defs)
  from run_log_events [of no_faults Completes row_L1 store_L1] 1 n
  have a: "filter is_log (emitted store_L1 (snd (run no_faults Completes row_L1 store_L1))) =
     [LogLine SKIP (Some ''L1'') (Some ''Ann'') (Reason ''already_processed'')]" by simp
  from run_log_events [of no_faults Completes row_anon store_L1] 2 n
  have b: "\<exists>k. filter is_log (emitted store_L1 (snd (run no_faults Completes row_anon store_L1))) =
     [LogLine START None (Some ''Bob'') (ApiKey (Some k)),
      LogLine DONE None (Some ''Bob'') (ApiKey (Some k))]" by simp
  from run_log_events [of no_faults Fails row_anon store_L1] 3 n
  have c: "\<exists>k. filter is_log (emitted store_L1 (snd (run no_faults Fails row_anon store_L1))) =
     [LogLine START None (Some ''Bob'') (ApiKey (Some k)),
      LogLine ERROR None (Some ''Bob'') (ApiKey (Some k))]" by simp
  from run_log_events [of no_faults Completes row_anon store_keyless] 4
  have d: "filter is_log (emitted store_keyless (snd (run no_faults Completes row_anon store_keyless))) = []"
    by simp
  from 1 2 3 4 a b c d show ?thesis by blast
qed

subsection \<open>Scheduling steps\<close>

lemma spawned_simps:
  "spawned (update_sent_to_llm orc lid w) = spawned w"
  "spawned (process_row r k w) = spawned w"
  "spawned (snd (lead_already_processed orc lid w)) = spawned w"
  "spawned (snd (pick_random_api_key orc w)) = spawned w"
  "spawned (sem_acquire w) = spawned w"
  by (simp_all add: update_sent_to_llm_def process_row_def lead_already_processed_snd
      pick_random_api_key_snd sem_acquire_def emit_def split: option.splits)

lemma set_task_simps:
  "spawned (set_task i t w) = (spawned w)[i := t]"
  "sem_value (set_task i t w) = sem_value w"
  "trace (set_task i t w) = trace w"
  by (simp_all add: set_task_def)

lemma run_begin_spawned: "spawned (snd (run_begin orc r w)) = spawned w"
proof (cases "fst (lead_already_processed orc (r ''lead_id'') w)")
  case True
  then show ?thesis
    by (simp add: run_begin_skipped [of orc r w] sem_release_simps emit_simps spawned_simps)
next
  case False
  let ?w1 = "snd (lead_already_processed orc (r ''lead_id'') w)"
  show ?thesis
  proof (cases "falsy (fst (pick_random_api_key orc ?w1))")
    case True
    with False show ?thesis
      by (simp add: run_begin_no_key [of orc r w] sem_release_simps spawned_simps)
  next
    case nf: False
    then obtain k where "fst (pick_random_api_key orc ?w1) = Some k" "k \<noteq> []"
      by (auto simp: falsy_def split: option.splits)
    with False show ?thesis
      by (simp add: run_begin_awaiting [of orc r w k] emit_simps spawned_simps)
  qed
qed

lemma run_resume_spawned: "spawned (snd (run_resume c r k w)) = spawned w"
  by (cases c) (simp_all add: run_resume_def sem_release_simps emit_simps)

lemma step_Start_Dict:
  assumes "i < length (spawned (ws s))" and "spawned (ws s) ! i = Created (Dict r)"
  shows "step (Start i orc) s =
     s\<lparr>ws := set_task i (began r (fst (run_begin orc r (ws s)))) (snd (run_begin orc r (ws s)))\<rparr>"
  using assms by (simp add: began_def split: prod.splits progress.splits)

lemma step_Start_Other:
  assumes "i < length (spawned (ws s))" and "spawned (ws s) ! i = Created Other"
  shows "step (Start i orc) s =
     s\<lparr>ws := set_task i (Finished Other (Inl Exception)) (sem_release (ws s)),
       raised := first_raise i Exception s\<rparr>"
  using assms by simp

lemma step_Wake:
  assumes "i < length (spawned (ws s))" and "spawned (ws s) ! i = Suspended r k"
  shows "step (Wake i c) s =
     s\<lparr>ws := set_task i (Finished (Dict r) (fst (run_resume c r k (ws s))))
               (snd (run_resume c r k (ws s))),
       raised := (case fst (run_resume c r k (ws s)) of
                    Inl e \<Rightarrow> first_raise i e s | Inr v \<Rightarrow> raised s)\<rparr>"
  using assms by (simp split: prod.splits)

lemma step_Cancel:
  assumes "i < length (spawned (ws s))" and "base s \<le> i" and "pending s = []"
    and "spawned (ws s) ! i = Created it"
  shows "step (Cancel i) s =
     s\<lparr>ws := set_task i (Finished it (Inl CancelledError)) (ws s),
       raised := first_raise i CancelledError s\<rparr>"
  using assms by simp

lemma step_Dispatch:
  assumes "pending s = it # its" and "sem_value (ws s) \<noteq> 0"
  shows "step Dispatch s =
     s\<lparr>ws := (sem_acquire (ws s))\<lparr>spawned := spawned (ws s) @ [Created it]\<rparr>, pending := its\<rparr>"
  using assms by simp

text \<open>Every step either leaves the state alone or is one of the five effects above.\<close>

lemma step_cases:
  obtains (idle) "step a s = s"
  | (dispatch) it its where "a = Dispatch" "pending s = it # its" "sem_value (ws s) \<noteq> 0"
  | (start) i orc r where "a = Start i orc" "i < length (spawned (ws s))"
      "spawned (ws s) ! i = Created (Dict r)"
  | (malformed) i orc where "a = Start i orc" "i < length (spawned (ws s))"
      "spawned (ws s) ! i = Created Other"
  | (wake) i c r k where "a = Wake i c" "i < length (spawned (ws s))"
      "spawned (ws s) ! i = Suspended r k"
  | (cancel) i it where "a = Cancel i" "i < length (spawned (ws s))" "base s \<le> i"
      "pending s = []" "spawned (ws s) ! i = Created it"
proof (cases a)
  case Dispatch
  show thesis
  proof (cases "pending s")
    case Nil
    then show thesis using idle Dispatch by simp
  next
    case (Cons it its)
    show thesis
    proof (cases "sem_value (ws s) = 0")
      case True
      then show thesis using idle Dispatch Cons by simp
    next
      case False
      then show thesis using dispatch Dispatch Cons by blast
    qed
  qed
next
  case (Start i orc)
  show thesis
  proof (cases "i < length (spawned (ws s))")
    case False
    then show thesis using idle Start by simp
  next
    case True
    show thesis
    proof (cases "spawned (ws s) ! i")
      case (Created it)
      then show thesis using start malformed Start True by (cases it) auto
    next
      case (Suspended r k)
      then show thesis using idle Start True by simp
    next
      case (Finished it res)
      then show thesis using idle Start True by simp
    qed
  qed
next
  case (Wake i c)
  show thesis
  proof (cases "i < length (spawned (ws s))")
    case False
    then show thesis using idle Wake by simp
  next
    case True
    show thesis
    proof (cases "spawned (ws s) ! i")
      case (Created it)
      then show thesis using idle Wake True by simp
    next
      case (Suspended r k)
      then show thesis using wake Wake True by simp
    next
      case (Finished it res)
      then show thesis using idle Wake True by simp
    qed
  qed
next
  case (Cancel i)
  show thesis
  proof (cases "i < length (spawned (ws s)) \<and> base s \<le> i \<and> pending s = []")
    case False
    then show thesis using idle Cancel by auto
  next
    case True
    show thesis
    proof (cases "spawned (ws s) ! i")
      case (Created it)
      then show thesis using cancel Cancel True by simp
    next
      case (Suspended r k)
      then show thesis using idle Cancel True by simp
    next
      case (Finished it res)
      then show thesis using idle Cancel True by simp
    qed
  qed
qed

lemma unfinished_update:
  "i < length ts \<Longrightarrow>
     sum_list (map unfinished (ts[i := t])) + unfinished (ts ! i) =
     sum_list (map unfinished ts) + unfinished t"
  by (induction ts arbitrary: i) (auto split: nat.splits)

lemma run_begin_began_sem:
  "sem_value (snd (run_begin orc r w)) + unfinished (began r (fst (run_begin orc r w)))
   = Suc (sem_value w)"
  by (cases rule: run_begin_cases [of orc r w]) (simp_all add: began_def)

lemma run_begin_began_ok: "task_ok (began r (fst (run_begin orc r w)))"
  by (cases rule: run_begin_cases [of orc r w]) (simp_all add: began_def outcome_tags_def)

lemma began_not_failed: "\<not> failed (began r p)"
  by (cases p) (simp_all add: began_def)

lemma row_of_began: "row_of (began r p) = Dict r"
  by (cases p) (simp_all add: began_def)

lemma run_resume_ok: "task_ok (Finished it (fst (run_resume c r k w)))"
  by (cases c) (simp_all add: run_resume_simps outcome_tags_def)

lemma step_base: "base (step a s) = base s"
proof (cases a s rule: step_cases)
  case idle
  then show ?thesis by simp
next
  case (dispatch it its)
  show ?thesis unfolding dispatch(1) step_Dispatch [OF dispatch(2,3)] by simp
next
  case (start i orc r)
  show ?thesis unfolding start(1) step_Start_Dict [OF start(2,3)] by simp
next
  case (malformed i orc)
  show ?thesis unfolding malformed(1) step_Start_Other [OF malformed(2,3)] by simp
next
  case (wake i c r k)
  show ?thesis unfolding wake(1) step_Wake [OF wake(2,3)] by simp
next
  case (cancel i it)
  show ?thesis unfolding cancel(1) step_Cancel [OF cancel(2-5)] by simp
qed

lemma step_length: "length (spawned (ws s)) \<le> length (spawned (ws (step a s)))"
proof (cases a s rule: step_cases)
  case idle
  then show ?thesis by simp
next
  case (dispatch it its)
  show ?thesis unfolding dispatch(1) step_Dispatch [OF dispatch(2,3)] by simp
next
  case (start i orc r)
  show ?thesis unfolding start(1) step_Start_Dict [OF start(2,3)]
    by (simp add: set_task_simps run_begin_spawned)
next
  case (malformed i orc)
  show ?thesis unfolding malformed(1) step_Start_Other [OF malformed(2,3)]
    by (simp add: set_task_simps sem_release_simps)
next
  case (wake i c r k)
  show ?thesis unfolding wake(1) step_Wake [OF wake(2,3)]
    by (simp add: set_task_simps run_resume_spawned)
next
  case (cancel i it)
  show ?thesis unfolding cancel(1) step_Cancel [OF cancel(2-5)]
    by (simp add: set_task_simps)
qed

lemma step_permits:
  "sem_value (ws (step a s)) + in_flight (step a s) \<le> sem_value (ws s) + in_flight s"
proof (cases a s rule: step_cases)
  case idle
  then show ?thesis by simp
next
  case (dispatch it its)
  show ?thesis unfolding dispatch(1) step_Dispatch [OF dispatch(2,3)]
    using dispatch(3) by (simp add: in_flight_def sem_acquire_def emit_def)
next
  case (start i orc r)
  from unfinished_update [OF start(2), of "began r (fst (run_begin orc r (ws s)))"]
    run_begin_began_sem [of orc r "ws s"]
  show ?thesis unfolding start(1) step_Start_Dict [OF start(2,3)]
    by (simp add: in_flight_def set_task_simps run_begin_spawned start(3))
next
  case (malformed i orc)
  from unfinished_update [OF malformed(2), of "Finished Other (Inl Exception)"]
  show ?thesis unfolding malformed(1) step_Start_Other [OF malformed(2,3)]
    by (simp add: in_flight_def set_task_simps sem_release_simps malformed(3))
next
  case (wake i c r k)
  from unfinished_update [OF wake(2), of "Finished (Dict r) (fst (run_resume c r k (ws s)))"]
  show ?thesis unfolding wake(1) step_Wake [OF wake(2,3)]
    by (simp add: in_flight_def set_task_simps run_resume_spawned run_resume_simps wake(3))
next
  case (cancel i it)
  from unfinished_update [OF cancel(2), of "Finished it (Inl CancelledError)"]
  show ?thesis unfolding cancel(1) step_Cancel [OF cancel(2-5)]
    by (simp add: in_flight_def set_task_simps cancel(5))
qed

lemma row_of_update: "i < length ts \<Longrightarrow> row_of t = row_of (ts ! i) \<Longrightarrow>
   map row_of (ts[i := t]) = map row_of ts"
  by (induction ts arbitrary: i) (auto split: nat.splits)

lemma step_rows:
  "map row_of (spawned (ws (step a s))) @ pending (step a s)
     = map row_of (spawned (ws s)) @ pending s"
proof (cases a s rule: step_cases)
  case idle
  then show ?thesis by simp
next
  case (dispatch it its)
  show ?thesis unfolding dispatch(1) step_Dispatch [OF dispatch(2,3)]
    by (simp add: dispatch(2))
next
  case (start i orc r)
  show ?thesis unfolding start(1) step_Start_Dict [OF start(2,3)]
    by (simp add: set_task_simps run_begin_spawned row_of_update [OF start(2)] row_of_began
        start(3))
next
  case (malformed i orc)
  show ?thesis unfolding malformed(1) step_Start_Other [OF malformed(2,3)]
    by (simp add: set_task_simps sem_release_simps row_of_update [OF malformed(2)] malformed(3))
next
  case (wake i c r k)
  show ?thesis unfolding wake(1) step_Wake [OF wake(2,3)]
    by (simp add: set_task_simps run_resume_spawned row_of_update [OF wake(2)] wake(3))
next
  case (cancel i it)
  show ?thesis unfolding cancel(1) step_Cancel [OF cancel(2-5)]
    by (simp add: set_task_simps row_of_update [OF cancel(2)] cancel(5))
qed

lemma batch_all_tasks: "batch_all P s \<longleftrightarrow> list_all P (tasks s)"
  by (auto simp: batch_all_def tasks_def list_all_length)
    (metis add.commute le_add1 less_diff_conv nth_drop ordered_cancel_comm_monoid_diff_class.add_diff_inverse)

lemma batch_all_replace:
  assumes "i < length (spawned (ws s))" and "P (spawned (ws s) ! i)"
    and "spawned (ws s') = (spawned (ws s))[i := t]" and "base s' = base s"
  shows "batch_all P s' \<longleftrightarrow> batch_all P s \<and> (base s \<le> i \<longrightarrow> P t)"
proof
  assume a: "batch_all P s'"
  have "P (spawned (ws s) ! j)" if "base s \<le> j" "j < length (spawned (ws s))" for j
  proof (cases "j = i")
    case True
    with assms(2) show ?thesis by simp
  next
    case False
    with a that assms(3,4) show ?thesis
      by (auto simp: batch_all_def nth_list_update dest!: spec [of _ j])
  qed
  moreover have "P t" if "base s \<le> i"
    using a that assms(1,3,4) by (auto simp: batch_all_def dest!: spec [of _ i])
  ultimately show "batch_all P s \<and> (base s \<le> i \<longrightarrow> P t)"
    by (simp add: batch_all_def)
next
  assume "batch_all P s \<and> (base s \<le> i \<longrightarrow> P t)"
  with assms(1,3,4) show "batch_all P s'"
    by (auto simp: batch_all_def nth_list_update)
qed

lemma batch_all_append:
  assumes "base s \<le> length (spawned (ws s))"
    and "spawned (ws s') = spawned (ws s) @ [t]" and "base s' = base s"
  shows "batch_all P s' \<longleftrightarrow> batch_all P s \<and> P t"
proof
  assume a: "batch_all P s'"
  have "P (spawned (ws s) ! j)" if "base s \<le> j" "j < length (spawned (ws s))" for j
    using a that assms(2,3) by (auto simp: batch_all_def nth_append dest!: spec [of _ j])
  moreover have "P t"
    using a assms by (auto simp: batch_all_def nth_append dest!: spec [of _ "length (spawned (ws s))"])
  ultimately show "batch_all P s \<and> P t" by (simp add: batch_all_def)
next
  assume "batch_all P s \<and> P t"
  with assms(2,3) show "batch_all P s'"
    by (auto simp: batch_all_def nth_append less_Suc_eq)
qed

lemma batch_all_raised: "batch_all P (s\<lparr>raised := x\<rparr>) = batch_all P s"
  by (simp add: batch_all_def)

lemma first_raise_simps:
  "base s \<le> i \<Longrightarrow> first_raise i e s \<noteq> None"
  "\<not> base s \<le> i \<Longrightarrow> first_raise i e s = raised s"
  by (simp_all add: first_raise_def split: option.splits)

lemma step_inv: "batch_inv s \<Longrightarrow> batch_inv (step a s)"
proof (cases a s rule: step_cases)
  case idle
  assume "batch_inv s"
  with idle show ?thesis by simp
next
  case (dispatch it its)
  assume inv: "batch_inv s"
  let ?s' = "s\<lparr>ws := (sem_acquire (ws s))\<lparr>spawned := spawned (ws s) @ [Created it]\<rparr>, pending := its\<rparr>"
  have b: "base s \<le> length (spawned (ws s))" using inv by (simp add: batch_inv_def)
  have sp: "spawned (ws ?s') = spawned (ws s) @ [Created it]" "base ?s' = base s" by simp_all
  from inv show ?thesis unfolding dispatch(1) step_Dispatch [OF dispatch(2,3)]
    by (simp add: batch_inv_def batch_all_append [where s = s and s' = "?s'" and t = "Created it", OF b sp])
next
  case (start i orc r)
  assume inv: "batch_inv s"
  let ?t = "began r (fst (run_begin orc r (ws s)))"
  let ?s' = "s\<lparr>ws := set_task i ?t (snd (run_begin orc r (ws s)))\<rparr>"
  have sp: "spawned (ws ?s') = (spawned (ws s))[i := ?t]" "base ?s' = base s"
    by (simp_all add: set_task_simps run_begin_spawned)
  have o: "task_ok (spawned (ws s) ! i)" "\<not> failed (spawned (ws s) ! i)"
    by (simp_all add: start(3))
  from inv show ?thesis unfolding start(1) step_Start_Dict [OF start(2,3)]
    by (simp add: batch_inv_def batch_all_replace [where P = task_ok and s = s and s' = "?s'" and i = i and t = "?t", OF start(2) o(1) sp]
        batch_all_replace [where P = "\<lambda>t. \<not> failed t" and s = s and s' = "?s'" and i = i and t = "?t", OF start(2) o(2) sp]
        run_begin_began_ok began_not_failed set_task_simps run_begin_spawned)
next
  case (malformed i orc)
  assume inv: "batch_inv s"
  let ?t = "Finished Other (Inl Exception)"
  let ?s' = "s\<lparr>ws := set_task i ?t (sem_release (ws s))\<rparr>"
  have sp: "spawned (ws ?s') = (spawned (ws s))[i := ?t]" "base ?s' = base s"
    by (simp_all add: set_task_simps sem_release_simps)
  have o: "task_ok (spawned (ws s) ! i)" "\<not> failed (spawned (ws s) ! i)"
    by (simp_all add: malformed(3))
  from inv show ?thesis unfolding malformed(1) step_Start_Other [OF malformed(2,3)]
    by (cases "base s \<le> i")
      (simp_all add: batch_inv_def batch_all_replace [where P = task_ok and s = s and s' = "?s'" and i = i and t = "?t", OF malformed(2) o(1) sp]
        batch_all_replace [where P = "\<lambda>t. \<not> failed t" and s = s and s' = "?s'" and i = i and t = "?t", OF malformed(2) o(2) sp]
        set_task_simps sem_release_simps first_raise_simps batch_all_raised)
next
  case (wake i c r k)
  assume inv: "batch_inv s"
  let ?res = "fst (run_resume c r k (ws s))"
  let ?t = "Finished (Dict r) ?res"
  let ?s' = "s\<lparr>ws := set_task i ?t (snd (run_resume c r k (ws s)))\<rparr>"
  have sp: "spawned (ws ?s') = (spawned (ws s))[i := ?t]" "base ?s' = base s"
    by (simp_all add: set_task_simps run_resume_spawned)
  have o: "task_ok (spawned (ws s) ! i)" "\<not> failed (spawned (ws s) ! i)"
    by (simp_all add: wake(3))
  note r1 = batch_all_replace [where P = task_ok and s = s and s' = "?s'" and i = i and t = "?t", OF wake(2) o(1) sp]
  note r2 = batch_all_replace [where P = "\<lambda>t. \<not> failed t" and s = s and s' = "?s'" and i = i and t = "?t", OF wake(2) o(2) sp]
  have ok: "task_ok ?t" by (rule run_resume_ok)
  have f: "failed ?t \<longleftrightarrow> c = Cancelled"
    by (cases c) (simp_all add: run_resume_simps)
  have rs: "(case ?res of Inl e \<Rightarrow> first_raise i e s | Inr v \<Rightarrow> raised s) =
      (if c = Cancelled then first_raise i CancelledError s else raised s)"
    by (cases c) (simp_all add: run_resume_simps)
  from inv r1 r2 ok f show ?thesis unfolding wake(1) step_Wake [OF wake(2,3)] rs
    by (cases "base s \<le> i")
      (auto simp: batch_inv_def set_task_simps run_resume_spawned first_raise_simps
        batch_all_raised)
next
  case (cancel i it)
  assume inv: "batch_inv s"
  let ?t = "Finished it (Inl CancelledError)"
  let ?s' = "s\<lparr>ws := set_task i ?t (ws s)\<rparr>"
  have sp: "spawned (ws ?s') = (spawned (ws s))[i := ?t]" "base ?s' = base s"
    by (simp_all add: set_task_simps)
  have o: "task_ok (spawned (ws s) ! i)" "\<not> failed (spawned (ws s) ! i)"
    by (simp_all add: cancel(5))
  from inv cancel(3) show ?thesis unfolding cancel(1) step_Cancel [OF cancel(2-5)]
    by (simp add: batch_inv_def batch_all_replace [where P = task_ok and s = s and s' = "?s'" and i = i and t = "?t", OF cancel(2) o(1) sp]
        batch_all_replace [where P = "\<lambda>t. \<not> failed t" and s = s and s' = "?s'" and i = i and t = "?t", OF cancel(2) o(2) sp]
        set_task_simps first_raise_simps batch_all_raised)
qed

lemma exec_inv: "batch_inv s \<Longrightarrow> batch_inv (exec acts s)"
  by (induction acts arbitrary: s) (simp_all add: step_inv)

lemma exec_base: "base (exec acts s) = base s"
  by (induction acts arbitrary: s) (simp_all add: step_base)

lemma exec_permits:
  "sem_value (ws (exec acts s)) + in_flight (exec acts s) \<le> sem_value (ws s) + in_flight s"
proof (induction acts arbitrary: s)
  case Nil
  show ?case by simp
next
  case (Cons a acts)
  from Cons [of "step a s"] step_permits [of a s] show ?case by simp
qed

lemma exec_rows:
  "map row_of (spawned (ws (exec acts s))) @ pending (exec acts s)
     = map row_of (spawned (ws s)) @ pending s"
  by (induction acts arbitrary: s) (simp_all add: step_rows)

subsection \<open>Gathering and counting\<close>


lemma gather_no_failed:
  "gather ts = Some (Inr rs) \<Longrightarrow> list_all (\<lambda>t. \<not> failed t) ts"
  by (induction ts arbitrary: rs rule: gather.induct) (auto split: option.splits sum.splits)

lemma count_simps:
  "processed_count rs = length (filter (\<lambda>r. r = ''processed'') rs)"
  "skipped_count rs = length (filter (\<lambda>r. r = ''skipped'' \<or> r = ''no_key'') rs)"
  "error_count rs = length (filter (\<lambda>r. r = ''error'') rs)"
  by (simp_all add: processed_count_def skipped_count_def error_count_def sum_list_triv)


lemma skipped_count_split:
  "skipped_count rs = count_list rs ''skipped'' + count_list rs ''no_key''"
  by (induction rs) (auto simp: count_simps)

lemma count_as_count_list:
  "processed_count rs = count_list rs ''processed''"
  "error_count rs = count_list rs ''error''"
  by (induction rs) (auto simp: count_simps)

lemma batch_init_simps:
  "ws (batch_init rows w) = w" "pending (batch_init rows w) = rows"
  "base (batch_init rows w) = length (spawned w)" "raised (batch_init rows w) = None"
  "in_flight (batch_init rows w) = sum_list (map unfinished (spawned w))"
  by (simp_all add: batch_init_def in_flight_def)

lemma batch_init_inv: "batch_inv (batch_init rows w)"
  by (auto simp: batch_inv_def batch_all_def batch_init_simps)

lemma batch_inv_exec: "batch_inv (exec acts (batch_init rows w))"
  by (rule exec_inv) (rule batch_init_inv)

lemma batch_permits:
  "sem_value (ws (exec acts (batch_init rows w))) + in_flight (exec acts (batch_init rows w))
     \<le> sem_value w + sum_list (map unfinished (spawned w))"
  using exec_permits [of acts "batch_init rows w"] by (simp add: batch_init_simps)


lemma batch_raised:
  "raised (exec acts (batch_init rows w)) = None \<longleftrightarrow>
     list_all (\<lambda>t. \<not> failed t) (tasks (exec acts (batch_init rows w)))"
  using batch_inv_exec [of acts rows w] by (simp add: batch_inv_def batch_all_tasks)

lemma batch_rows:
  "map row_of (tasks (exec acts (batch_init rows w))) @ pending (exec acts (batch_init rows w))
     = rows"
proof -
  let ?s = "exec acts (batch_init rows w)"
  have b: "base ?s = length (spawned w)" by (simp add: exec_base batch_init_simps)
  from batch_inv_exec [of acts rows w] b
  have le: "length (spawned w) \<le> length (spawned (ws ?s))" by (simp add: batch_inv_def)
  from exec_rows [of acts "batch_init rows w"]
  have "map row_of (spawned (ws ?s)) @ pending ?s = map row_of (spawned w) @ rows"
    by (simp add: batch_init_simps)
  then have "drop (length (spawned w)) (map row_of (spawned (ws ?s)) @ pending ?s) = rows"
    by simp
  with le show ?thesis by (simp add: tasks_def b drop_map)
qed


lemma batch_awaited:
  assumes "gather (tasks (exec acts (batch_init rows w))) = Some (Inr results)"
  shows "awaited (exec acts (batch_init rows w)) = Some (Inr results)"
  using assms gather_no_failed [OF assms] batch_raised [of acts rows w]
  by (simp add: awaited_def)

subsection \<open>One cycle\<close>

lemma cycle_raises:
  "fetch co = Raises \<Longrightarrow>
     cycle cfg co w = Continue (emit (Sleep (poll_interval_sec cfg)) (rpc_done w))"
  by (simp add: cycle_def rpc_done_def)

lemma cycle_empty:
  "fetch co = Data d \<Longrightarrow> or_empty d = [] \<Longrightarrow>
     cycle cfg co w =
       Continue (emit (Sleep (poll_interval_sec cfg))
         (emit (Print \<lparr>total = 0, processed = 0, skipped = 0, errors = 0,
                        duration = clock_end co - clock_start co\<rparr>) (rpc_done w)))"
  by (simp add: cycle_def rpc_done_def)

lemma batch_tasks_nonempty:
  assumes "rows \<noteq> []" and "pending (batch_state co rows w) = []"
  shows "tasks (batch_state co rows w) \<noteq> []"
  using batch_rows [of "schedule co" rows "rpc_done w"] assms
  by (auto simp: batch_state_def)

lemma cycle_batch:
  assumes "fetch co = Data d" and "or_empty d \<noteq> []"
  shows "cycle cfg co w =
     (if pending (batch_state co (or_empty d) w) \<noteq> [] then Unsettled (batch_state co (or_empty d) w)
      else (case awaited (batch_state co (or_empty d) w) of
              None \<Rightarrow> Unsettled (batch_state co (or_empty d) w)
            | Some (Inl Exception) \<Rightarrow>
                Continue (emit (Sleep (poll_interval_sec cfg)) (ws (batch_state co (or_empty d) w)))
            | Some (Inl CancelledError) \<Rightarrow>
                Escapes CancelledError (ws (batch_state co (or_empty d) w))
            | Some (Inr results) \<Rightarrow>
                Continue
                  (emit (Print \<lparr>total = length (or_empty d),
                                processed = processed_count results,
                                skipped = skipped_count results,
                                errors = error_count results,
                                duration = clock_end co - clock_start co\<rparr>)
                     (emit (Sleep (1 / 10)) (ws (batch_state co (or_empty d) w))))))"
proof (cases "pending (batch_state co (or_empty d) w) = []")
  case False
  with assms show ?thesis
    by (simp add: cycle_def Let_def batch_state_def rpc_done_def)
next
  case True
  note ne = batch_tasks_nonempty [OF assms(2) True]
  show ?thesis
  proof (cases "awaited (batch_state co (or_empty d) w)")
    case None
    with assms True ne show ?thesis
      by (simp add: cycle_def Let_def batch_state_def rpc_done_def)
  next
    case (Some x)
    show ?thesis
    proof (cases x)
      case (Inl e)
      with assms True ne Some show ?thesis
        by (cases e) (simp_all add: cycle_def Let_def batch_state_def rpc_done_def)
    next
      case (Inr rs)
      with assms True ne Some show ?thesis
        by (simp add: cycle_def Let_def batch_state_def rpc_done_def)
    qed
  qed
qed

lemma cycle_Continue_batch:
  assumes "fetch co = Data d" and "or_empty d \<noteq> []" and "cycle cfg co w = Continue w'"
  shows "sem_value w' = sem_value (ws (batch_state co (or_empty d) w))
     \<and> spawned w' = spawned (ws (batch_state co (or_empty d) w))"
  using assms(3) unfolding cycle_batch [OF assms(1,2)]
  by (auto simp: emit_simps split: if_splits option.splits sum.splits exn.splits)

lemmas cycle_ex_defs = cfg_ex_def fetch_one_def load_config_def

lemmas sched_defs = cycle_def batch_init_def sem_acquire_def in_flight_def
  processed_count_def skipped_count_def error_count_def worker_loop_def
  make_supabase_client_def Semaphore_def falsy_def rpc_done_def batch_state_def
  tasks_def set_task_def first_raise_def awaited_def

lemma worker_cycles_Cons_Continue:
  "cycle cfg co w = Continue w' \<Longrightarrow> worker_cycles cfg (co # rest) w = worker_cycles cfg rest w'"
  by simp

subsection \<open>Outcomes and counts of a batch\<close>



lemma one_anon: "fetch (fetch_one row_anon) = Data (Some [Dict row_anon])"
  "or_empty (Some [Dict row_anon]) \<noteq> []"
  "pending (batch_state (fetch_one row_anon) (or_empty (Some [Dict row_anon])) store_keyless) = []"
  "gather (tasks (batch_state (fetch_one row_anon) (or_empty (Some [Dict row_anon])) store_keyless))
     = Some (Inr [''no_key''])"
  by (simp_all add: sched_defs cycle_ex_defs eval_defs ex_defs)


subsection \<open>The cycle summary\<close>

text \<open>
  The summary has three counts, and \<^verbatim>\<open>skipped_count\<close> counts both tags skipped and no_key.
  A cycle whose one row is skipped and a cycle whose one row finds no key print the same
  summary, with \<open>skipped = 1\<close>.
\<close>

theorem cycle_hides_no_key:
  "gather (tasks (batch_state (fetch_one row_L1) [Dict row_L1] store_L1)) = Some (Inr [''skipped''])
   \<and> gather (tasks (batch_state (fetch_one row_anon) [Dict row_anon] store_keyless))
       = Some (Inr [''no_key''])
   \<and> summaries (cycle cfg_ex (fetch_one row_L1) store_L1)
       = [\<lparr>total = 1, processed = 0, skipped = 1, errors = 0, duration = 1\<rparr>]
   \<and> summaries (cycle cfg_ex (fetch_one row_anon) store_keyless)
       = [\<lparr>total = 1, processed = 0, skipped = 1, errors = 0, duration = 1\<rparr>]"
  by (simp add: summaries_def sched_defs cycle_ex_defs eval_defs ex_defs)

text \<open>
  C9, amended. The summary of a non-empty cycle carries the number of rows fetched, the
  number of processed results, one skipped count that is the number of skipped results plus
  the number of no_key results, the number of error results, and the elapsed time between
  the two clock readings.
\<close>

theorem cycle_summary_counts:
  assumes "fetch co = Data d" and "or_empty d \<noteq> []"
    and "pending (batch_state co (or_empty d) w) = []"
    and "gather (tasks (batch_state co (or_empty d) w)) = Some (Inr results)"
  shows "cycle cfg co w =
         Continue (emit (Print \<lparr>total = length (or_empty d),
                                 processed = count_list results ''processed'',
                                 skipped = count_list results ''skipped''
                                           + count_list results ''no_key'',
                                 errors = count_list results ''error'',
                                 duration = clock_end co - clock_start co\<rparr>)
                     (emit (Sleep (1 / 10)) (ws (batch_state co (or_empty d) w))))"
proof -
  from batch_awaited [of "schedule co" "or_empty d" "rpc_done w" results] assms(4)
  have aw: "awaited (batch_state co (or_empty d) w) = Some (Inr results)"
    by (simp add: batch_state_def)
  with assms(3) show ?thesis
    by (simp add: cycle_batch [OF assms(1,2)] skipped_count_split count_as_count_list)
qed

theorem cycle_summary_counts_witness:
  "cycle cfg_ex (fetch_one row_anon) store_keyless =
     Continue (emit (Print \<lparr>total = 1, processed = 0, skipped = 1, errors = 0, duration = 1\<rparr>)
       (emit (Sleep (1 / 10))
          (ws (batch_state (fetch_one row_anon) [Dict row_anon] store_keyless))))"
  using cycle_summary_counts [OF one_anon, of cfg_ex]
  by (simp add: or_empty_def fetch_one_def)

subsection \<open>Exceptions caught by the cycle\<close>

text \<open>
  The handler of the cycle's \<^verbatim>\<open>except Exception\<close> only sleeps. When the RPC raises, the
  cycle adds no log line and no printed summary to the trace.
\<close>

theorem cycle_fetch_raises_silent:
  "fetch fetch_fails = Raises
   \<and> cycle cfg_ex fetch_fails store_L1 = Continue (emit (Sleep 5) (rpc_done store_L1))
   \<and> filter is_report (emitted store_L1 (emit (Sleep 5) (rpc_done store_L1))) = []"
  by (simp add: fetch_fails_def sched_defs cycle_ex_defs eval_defs ex_defs)

text \<open>
  C6, amended. An exception escapes the fetch step when the RPC raises, and the
  aggregation step when \<^verbatim>\<open>await asyncio.gather\<close> passes on the exception a task of the batch
  has ended with. In both cases the cycle catches it, the handler emits nothing but the
  sleep of the configured poll interval (no log line, no summary), and the loop goes on
  with the next cycle.
\<close>

theorem cycle_exception_retries:
  "(fetch co = Raises \<longrightarrow>
      cycle cfg co w = Continue (emit (Sleep (poll_interval_sec cfg)) (rpc_done w))
      \<and> emitted w (emit (Sleep (poll_interval_sec cfg)) (rpc_done w))
          = [Rpc ''rpc_get_eligible_llm_jobs_v2'', Sleep (poll_interval_sec cfg)]
      \<and> worker_cycles cfg (co # rest) w =
          worker_cycles cfg rest (emit (Sleep (poll_interval_sec cfg)) (rpc_done w)))
   \<and> (fetch co = Data d \<and> or_empty d \<noteq> []
       \<and> pending (batch_state co (or_empty d) w) = []
       \<and> raised (batch_state co (or_empty d) w) = Some Exception \<longrightarrow>
      cycle cfg co w =
        Continue (emit (Sleep (poll_interval_sec cfg)) (ws (batch_state co (or_empty d) w)))
      \<and> emitted (ws (batch_state co (or_empty d) w))
           (emit (Sleep (poll_interval_sec cfg)) (ws (batch_state co (or_empty d) w)))
          = [Sleep (poll_interval_sec cfg)]
      \<and> worker_cycles cfg (co # rest) w =
          worker_cycles cfg rest
            (emit (Sleep (poll_interval_sec cfg)) (ws (batch_state co (or_empty d) w))))"
proof (intro conjI impI)
  assume f: "fetch co = Raises"
  then show "cycle cfg co w = Continue (emit (Sleep (poll_interval_sec cfg)) (rpc_done w))"
    by (rule cycle_raises)
  then show "worker_cycles cfg (co # rest) w =
          worker_cycles cfg rest (emit (Sleep (poll_interval_sec cfg)) (rpc_done w))"
    by simp
  show "emitted w (emit (Sleep (poll_interval_sec cfg)) (rpc_done w))
          = [Rpc ''rpc_get_eligible_llm_jobs_v2'', Sleep (poll_interval_sec cfg)]"
    by (simp add: rpc_done_def emitted_def emit_def)
next
  assume a: "fetch co = Data d \<and> or_empty d \<noteq> []
       \<and> pending (batch_state co (or_empty d) w) = []
       \<and> raised (batch_state co (or_empty d) w) = Some Exception"
  then have f: "fetch co = Data d" "or_empty d \<noteq> []" by simp_all
  from a show c: "cycle cfg co w =
        Continue (emit (Sleep (poll_interval_sec cfg)) (ws (batch_state co (or_empty d) w)))"
    by (simp add: cycle_batch [OF f] awaited_def)
  then show "worker_cycles cfg (co # rest) w =
          worker_cycles cfg rest
            (emit (Sleep (poll_interval_sec cfg)) (ws (batch_state co (or_empty d) w)))"
    by simp
  show "emitted (ws (batch_state co (or_empty d) w))
           (emit (Sleep (poll_interval_sec cfg)) (ws (batch_state co (or_empty d) w)))
          = [Sleep (poll_interval_sec cfg)]"
    by (simp add: emitted_def emit_def)
qed

theorem cycle_exception_retries_witness:
  "cycle cfg_ex fetch_fails store_L1 = Continue (emit (Sleep 5) (rpc_done store_L1))
   \<and> worker_cycles cfg_ex [fetch_fails, fetch_fails] store_L1 =
        worker_cycles cfg_ex [fetch_fails] (emit (Sleep 5) (rpc_done store_L1))
   \<and> raised (batch_state fetch_malformed [Other] store_L1) = Some Exception
   \<and> cycle cfg_ex fetch_malformed store_L1 =
        Continue (emit (Sleep 5) (ws (batch_state fetch_malformed [Other] store_L1)))
   \<and> worker_cycles cfg_ex [fetch_malformed, fetch_fails] store_L1 =
        worker_cycles cfg_ex [fetch_fails]
          (emit (Sleep 5) (ws (batch_state fetch_malformed [Other] store_L1)))"
proof -
  have f: "fetch fetch_fails = Raises" by (simp add: fetch_fails_def)
  have p: "poll_interval_sec cfg_ex = 5" by (simp add: cfg_ex_def load_config_def)
  have m: "fetch fetch_malformed = Data (Some [Other])" "or_empty (Some [Other]) \<noteq> []"
    "pending (batch_state fetch_malformed (or_empty (Some [Other])) store_L1) = []"
    "raised (batch_state fetch_malformed (or_empty (Some [Other])) store_L1) = Some Exception"
    by (simp_all add: fetch_malformed_def or_empty_def batch_state_def batch_init_def
        rpc_done_def emit_def sem_acquire_def sem_release_def set_task_def first_raise_def
        store_L1_def)
  from cycle_exception_retries [of fetch_fails cfg_ex store_L1 "[fetch_fails]"] f p
  have a: "cycle cfg_ex fetch_fails store_L1 = Continue (emit (Sleep 5) (rpc_done store_L1))
   \<and> worker_cycles cfg_ex [fetch_fails, fetch_fails] store_L1 =
        worker_cycles cfg_ex [fetch_fails] (emit (Sleep 5) (rpc_done store_L1))"
    by simp
  from cycle_exception_retries [of fetch_malformed cfg_ex store_L1 "[fetch_fails]" "Some [Other]"]
    m p
  have b: "cycle cfg_ex fetch_malformed store_L1 =
        Continue (emit (Sleep 5) (ws (batch_state fetch_malformed [Other] store_L1)))
   \<and> worker_cycles cfg_ex [fetch_malformed, fetch_fails] store_L1 =
        worker_cycles cfg_ex [fetch_fails]
          (emit (Sleep 5) (ws (batch_state fetch_malformed [Other] store_L1)))"
    by (simp add: or_empty_def)
  from a b m(4) show ?thesis by (simp add: or_empty_def)
qed

subsection \<open>An empty fetch\<close>

text \<open>
  C8. When the fetch returns no rows (an empty list or a null payload), the cycle prints a
  summary with total, processed, skipped and errors all zero, then sleeps for the
  configured poll interval, and the loop goes on with the next cycle, which starts with the
  next fetch.
\<close>

theorem cycle_empty_fetch:
  assumes "fetch co = Data d" and "or_empty d = []"
  shows "cycle cfg co w =
       Continue (emit (Sleep (poll_interval_sec cfg))
         (emit (Print \<lparr>total = 0, processed = 0, skipped = 0, errors = 0,
                        duration = clock_end co - clock_start co\<rparr>) (rpc_done w)))
     \<and> emitted w (emit (Sleep (poll_interval_sec cfg))
         (emit (Print \<lparr>total = 0, processed = 0, skipped = 0, errors = 0,
                        duration = clock_end co - clock_start co\<rparr>) (rpc_done w)))
        = [Rpc ''rpc_get_eligible_llm_jobs_v2'',
           Print \<lparr>total = 0, processed = 0, skipped = 0, errors = 0,
                  duration = clock_end co - clock_start co\<rparr>,
           Sleep (poll_interval_sec cfg)]
     \<and> worker_cycles cfg (co # rest) w =
         worker_cycles cfg rest (emit (Sleep (poll_interval_sec cfg))
         (emit (Print \<lparr>total = 0, processed = 0, skipped = 0, errors = 0,
                        duration = clock_end co - clock_start co\<rparr>) (rpc_done w)))"
  using assms by (simp add: cycle_empty rpc_done_def emitted_def emit_def)

theorem cycle_empty_fetch_witness:
  "cycle cfg_ex fetch_nothing store_L1 =
       Continue (emit (Sleep 5)
         (emit (Print \<lparr>total = 0, processed = 0, skipped = 0, errors = 0, duration = 1\<rparr>)
            (rpc_done store_L1)))"
proof -
  have f: "fetch fetch_nothing = Data (Some [])" "or_empty (Some ([] :: item list)) = []"
    by (simp_all add: fetch_nothing_def or_empty_def)
  have p: "poll_interval_sec cfg_ex = 5" "clock_end fetch_nothing - clock_start fetch_nothing = 1"
    by (simp_all add: cfg_ex_def load_config_def fetch_nothing_def)
  from cycle_empty_fetch [OF f, of cfg_ex store_L1 "[]"] p
  show ?thesis by simp
qed

subsection \<open>The concurrency bound\<close>

lemma cycle_Continue_permits:
  assumes "cycle cfg co w = Continue w'"
  shows "sem_value w' + sum_list (map unfinished (spawned w'))
           \<le> sem_value w + sum_list (map unfinished (spawned w))"
proof (cases "fetch co")
  case Raises
  with assms show ?thesis
    by (auto simp: cycle_raises rpc_done_def emit_simps)
next
  case (Data d)
  show ?thesis
  proof (cases "or_empty d = []")
    case True
    with assms Data show ?thesis
      by (auto simp: cycle_empty rpc_done_def emit_simps)
  next
    case False
    from cycle_Continue_batch [OF Data False assms]
      batch_permits [of "schedule co" "or_empty d" "rpc_done w"]
    show ?thesis by (simp add: batch_state_def rpc_done_def emit_simps in_flight_def)
  qed
qed

lemma cycle_Unsettled_bound:
  assumes "cycle cfg co w = Unsettled s"
  shows "in_flight s \<le> sem_value w + sum_list (map unfinished (spawned w))"
proof (cases "fetch co")
  case Raises
  with assms show ?thesis by (simp add: cycle_raises)
next
  case (Data d)
  show ?thesis
  proof (cases "or_empty d = []")
    case True
    with assms Data show ?thesis by (simp add: cycle_empty)
  next
    case False
    from assms have "s = batch_state co (or_empty d) w"
      unfolding cycle_batch [OF Data False]
      by (auto split: if_splits option.splits sum.splits exn.splits)
    with batch_permits [of "schedule co" "or_empty d" "rpc_done w"]
    show ?thesis by (simp add: batch_state_def rpc_done_def emit_simps)
  qed
qed

lemma worker_cycles_bound:
  "worker_cycles cfg os w = Unsettled s \<Longrightarrow>
     in_flight s \<le> sem_value w + sum_list (map unfinished (spawned w))"
proof (induction os arbitrary: w)
  case Nil
  then show ?case by simp
next
  case (Cons co os)
  show ?case
  proof (cases "cycle cfg co w")
    case (Continue w')
    with Cons.prems have "worker_cycles cfg os w' = Unsettled s" by simp
    from Cons.IH [OF this] cycle_Continue_permits [OF Continue] show ?thesis by simp
  next
    case (Escapes e w')
    with Cons.prems show ?thesis by simp
  next
    case (Unsettled s')
    with Cons.prems have "s' = s" by simp
    with cycle_Unsettled_bound [OF Unsettled] show ?thesis by simp
  qed
qed

lemma worker_cycles_Continue_permits:
  "worker_cycles cfg os w = Continue w' \<Longrightarrow>
     sem_value w' + sum_list (map unfinished (spawned w'))
       \<le> sem_value w + sum_list (map unfinished (spawned w))"
proof (induction os arbitrary: w)
  case Nil
  then show ?case by simp
next
  case (Cons co os)
  show ?case
  proof (cases "cycle cfg co w")
    case (Continue w1)
    with Cons.prems have "worker_cycles cfg os w1 = Continue w'" by simp
    from Cons.IH [OF this] cycle_Continue_permits [OF Continue] show ?thesis by simp
  next
    case (Escapes e w1)
    with Cons.prems show ?thesis by simp
  next
    case (Unsettled s1)
    with Cons.prems show ?thesis by simp
  qed
qed

text \<open>
  C2. Whatever the loop has done so far (any number of cycles, any faults) and however the
  tasks interleave with the dispatching loop, complete, fail or are cancelled, the number
  of tasks created and not yet finished is at most \<^verbatim>\<open>MAX_CONCURRENCY\<close>. A state of the
  loop inside a batch is the state \<open>Unsettled s\<close> reached by the schedule up to that
  instant; \<open>in_flight\<close> counts the unfinished tasks of this batch and of earlier ones.
  Between two cycles the same bound holds for the tasks still running.
\<close>

theorem in_flight_bounded:
  "(worker_loop cfg os w = Unsettled s \<longrightarrow> int (in_flight s) \<le> max_concurrency cfg)
   \<and> (worker_loop cfg os w = Continue w' \<longrightarrow>
        int (sum_list (map unfinished (spawned w'))) \<le> max_concurrency cfg)"
proof (cases "make_supabase_client cfg")
  case (Inl e)
  then show ?thesis by (simp add: worker_loop_def)
next
  case (Inr u)
  show ?thesis
  proof (cases "max_concurrency cfg < 0")
    case True
    with Inr show ?thesis by (simp add: worker_loop_def Semaphore_def)
  next
    case False
    let ?w = "w\<lparr>sem_value := nat (max_concurrency cfg), spawned := []\<rparr>"
    from False Inr have l: "worker_loop cfg os w = worker_cycles cfg os ?w"
      by (simp add: worker_loop_def Semaphore_def)
    have "int (in_flight s) \<le> max_concurrency cfg" if "worker_loop cfg os w = Unsettled s"
      using worker_cycles_bound [of cfg os ?w s] that l False by simp
    moreover have "int (sum_list (map unfinished (spawned w'))) \<le> max_concurrency cfg"
      if "worker_loop cfg os w = Continue w'"
      using worker_cycles_Continue_permits [of cfg os ?w w'] that l False by simp
    ultimately show ?thesis by blast
  qed
qed

theorem in_flight_bounded_witness:
  "worker_loop cfg_one [fetch_two] store_L1 =
     Unsettled (batch_state fetch_two [Dict row_anon, Dict row_L1]
                  (store_L1\<lparr>sem_value := 1, spawned := []\<rparr>))
   \<and> in_flight (batch_state fetch_two [Dict row_anon, Dict row_L1]
                  (store_L1\<lparr>sem_value := 1, spawned := []\<rparr>)) = 1
   \<and> max_concurrency cfg_one = 1
   \<and> worker_loop cfg_ex [fetch_mixed] store_L1 =
     Continue (emit (Sleep 5)
                 (ws (batch_state fetch_mixed [Dict row_anon, Other]
                        (store_L1\<lparr>sem_value := 3, spawned := []\<rparr>))))
   \<and> sum_list (map unfinished
        (spawned (emit (Sleep 5)
                 (ws (batch_state fetch_mixed [Dict row_anon, Other]
                        (store_L1\<lparr>sem_value := 3, spawned := []\<rparr>)))))) = 1
   \<and> max_concurrency cfg_ex = 3"
proof -
  let ?s = "batch_state fetch_two [Dict row_anon, Dict row_L1]
              (store_L1\<lparr>sem_value := 1, spawned := []\<rparr>)"
  have f: "fetch fetch_two = Data (Some [Dict row_anon, Dict row_L1])"
    "or_empty (Some [Dict row_anon, Dict row_L1]) \<noteq> []"
    by (simp_all add: fetch_two_def or_empty_def)
  have p: "pending ?s \<noteq> []"
    by (simp add: batch_state_def batch_init_def fetch_two_def rpc_done_def emit_def
        sem_acquire_def store_L1_def)
  have n: "in_flight ?s = 1"
    by (simp add: batch_state_def batch_init_def fetch_two_def rpc_done_def emit_def
        sem_acquire_def store_L1_def in_flight_def)
  have c: "make_supabase_client cfg_one = Inr ()" "max_concurrency cfg_one = 1"
    by (simp_all add: make_supabase_client_def cfg_one_def load_config_def falsy_def)
  have "cycle cfg_one fetch_two (store_L1\<lparr>sem_value := 1, spawned := []\<rparr>) = Unsettled ?s"
    using p by (simp add: cycle_batch [OF f] or_empty_def)
  then have l: "worker_loop cfg_one [fetch_two] store_L1 = Unsettled ?s"
    by (simp add: worker_loop_def c Semaphore_def)
  let ?m = "batch_state fetch_mixed [Dict row_anon, Other]
              (store_L1\<lparr>sem_value := 3, spawned := []\<rparr>)"
  have g: "fetch fetch_mixed = Data (Some [Dict row_anon, Other])"
    "or_empty (Some [Dict row_anon, Other]) \<noteq> []"
    by (simp_all add: fetch_mixed_def or_empty_def)
  have sp: "spawned (ws ?m) = [Suspended row_anon ''k1'', Finished Other (Inl Exception)]"
    and pm: "pending ?m = []" and rm: "raised ?m = Some Exception"
    by (simp_all add: fetch_mixed_def sched_defs eval_defs ex_defs)
  have d: "make_supabase_client cfg_ex = Inr ()" "max_concurrency cfg_ex = 3"
    "poll_interval_sec cfg_ex = 5"
    by (simp_all add: make_supabase_client_def cfg_ex_def load_config_def falsy_def)
  have "cycle cfg_ex fetch_mixed (store_L1\<lparr>sem_value := 3, spawned := []\<rparr>)
          = Continue (emit (Sleep 5) (ws ?m))"
    using pm rm d by (simp add: cycle_batch [OF g] or_empty_def awaited_def)
  then have k: "worker_loop cfg_ex [fetch_mixed] store_L1 = Continue (emit (Sleep 5) (ws ?m))"
    by (simp add: worker_loop_def d Semaphore_def)
  have u: "sum_list (map unfinished (spawned (emit (Sleep 5) (ws ?m)))) = 1"
    by (simp add: emit_simps sp)
  from in_flight_bounded [of cfg_one "[fetch_two]" store_L1 ?s]
    in_flight_bounded [of cfg_ex "[fetch_mixed]" store_L1 _ "emit (Sleep 5) (ws ?m)"]
    l n c k u d
  show ?thesis by simp
qed

subsection \<open>A permit that is never released\<close>

text \<open>
  C3. The loop acquires the permit before it creates the task, and only the \<^verbatim>\<open>finally\<close>
  clause inside \<^verbatim>\<open>_run\<close> gives it back. With three permits and a batch of two rows, when
  both tasks are cancelled before their first step they end with \<^verbatim>\<open>CancelledError\<close>, no
  task is in flight, two permits have been acquired, none has been released, and the
  semaphore stays at one.
\<close>

theorem cancelled_before_start_leaks:
  "pending leaked_state = []
   \<and> tasks leaked_state = [Finished (Dict row_L1) (Inl CancelledError),
                           Finished (Dict row_anon) (Inl CancelledError)]
   \<and> awaited leaked_state = Some (Inl CancelledError)
   \<and> in_flight leaked_state = 0
   \<and> sem_value store_three_permits = 3
   \<and> sem_value (ws leaked_state) = 1
   \<and> length (filter is_acquire (trace (ws leaked_state))) = 2
   \<and> filter is_release (trace (ws leaked_state)) = []"
  by (simp add: leaked_state_def cancel_early_def store_three_permits_def batch_init_def
      sem_acquire_def emit_def set_task_def first_raise_def tasks_def awaited_def in_flight_def)

end
